theory Spec2Isabelle
  imports Main "HOL-Library.Sublist" "HOL-Library.Multiset"
begin

section \<open>Values exchanged with the Python libraries\<close>

text \<open>
  The program is \<^verbatim>\<open>src/parldl/__main__.py\<close>. It calls three libraries: \<^verbatim>\<open>urllib.parse\<close>
  (\<^verbatim>\<open>urlparse\<close>), \<^verbatim>\<open>pathlib\<close> (\<^verbatim>\<open>Path(..).name\<close>, \<^verbatim>\<open>/\<close>, \<^verbatim>\<open>write_bytes\<close>) and
  \<^verbatim>\<open>requests\<close> (\<^verbatim>\<open>requests.get\<close>). What a library call answers is not decided by the
  program, so it is a parameter of the model: a \<open>library\<close> record holds the answers the
  libraries give during one call of \<^verbatim>\<open>download_image\<close>. A raised exception is the value
  \<open>Inl msg\<close>, where \<open>msg\<close> is \<^verbatim>\<open>str(e)\<close>.
\<close>

datatype error =
    LibraryError string  \<comment> \<open>an exception raised by a library call, with its \<^verbatim>\<open>str(e)\<close>\<close>
  | KeyError             \<comment> \<open>a dictionary read at a missing key\<close>
  | AttributeError       \<comment> \<open>\<^verbatim>\<open>None.startswith\<close>\<close>

record parsed_url =
  path :: string
  netloc :: string

record response =
  status_code :: int
  content :: string

text \<open>A \<^verbatim>\<open>Path\<close> is the list of its components; \<^verbatim>\<open>output_dir / filename\<close> appends one.\<close>

type_synonym py_path = "string list"

record library =
  urlparse :: "string \<Rightarrow> string + parsed_url"
  requests_get :: "string \<Rightarrow> string + response"
  write_bytes :: "py_path \<Rightarrow> string \<Rightarrow> string option"

section \<open>Strings\<close>

text \<open>\<^verbatim>\<open>str(n)\<close> of a Python integer, as the f-string \<^verbatim>\<open>f"HTTP {response.status_code}"\<close> prints it.\<close>

fun str_nat :: "nat \<Rightarrow> string" where
  "str_nat n =
     (if n < 10 then [''0123456789'' ! n]
      else str_nat (n div 10) @ [''0123456789'' ! (n mod 10)])"

declare str_nat.simps [simp del]

definition str_int :: "int \<Rightarrow> string" where
  "str_int i = (if i < 0 then ''-'' @ str_nat (nat (- i)) else str_nat (nat i))"

text \<open>\<^verbatim>\<open>s.startswith(p)\<close>.\<close>

definition startswith :: "string \<Rightarrow> string \<Rightarrow> bool" where
  "startswith s p = prefix p s"

text \<open>\<^verbatim>\<open>s.split(sep)\<close> for a one-character separator.\<close>

fun split_sep :: "char \<Rightarrow> string \<Rightarrow> string list" where
  "split_sep c [] = [[]]"
| "split_sep c (x # xs) =
     (if x = c then [] # split_sep c xs
      else (case split_sep c xs of [] \<Rightarrow> [[x]] | y # ys \<Rightarrow> (x # y) # ys))"

text \<open>
  \<^verbatim>\<open>Path(p).name\<close> on a POSIX system: pathlib splits \<open>p\<close> at \<^verbatim>\<open>/\<close>, drops the empty and
  the \<^verbatim>\<open>.\<close> components, and \<^verbatim>\<open>name\<close> is the last component left, or the empty string.
\<close>

definition path_name :: "string \<Rightarrow> string" where
  "path_name p =
     (let tail = filter (\<lambda>x. x \<noteq> [] \<and> x \<noteq> ''.'') (split_sep (CHR ''/'') p)
      in if tail = [] then [] else last tail)"

section \<open>The single-resource fetcher\<close>

text \<open>
  \<^verbatim>\<open>download_image(url, output_dir)\<close>, lines 14-41. The result is what the call returns
  (\<open>Inr (success, error)\<close>) or the exception it lets through (\<open>Inl\<close>), paired with the
  files it wrote: the list of \<^verbatim>\<open>write_bytes\<close> calls that completed, each with its path and
  payload. Lines 25-31 are outside the \<^verbatim>\<open>try\<close>; lines 34-39 are inside, and
  \<^verbatim>\<open>except Exception as e\<close> turns whatever they raise into \<^verbatim>\<open>(False, str(e))\<close>.
\<close>

definition filename_of :: "parsed_url \<Rightarrow> string" where
  \<comment> \<open>lines 26-29\<close>
  "filename_of parsed =
     (let filename = path_name (path parsed)
      in if filename = [] then netloc parsed @ ''.html'' else filename)"

definition download_image ::
  "library \<Rightarrow> string \<Rightarrow> py_path \<Rightarrow> (error + bool \<times> string option) \<times> (py_path \<times> string) list" where
  "download_image L url output_dir =
     (case urlparse L url of
        Inl e \<Rightarrow> (Inl (LibraryError e), [])
      | Inr parsed \<Rightarrow>
          (let filepath = output_dir @ [filename_of parsed]
           in case requests_get L url of
                Inl e \<Rightarrow> (Inr (False, Some e), [])
              | Inr response \<Rightarrow>
                  if status_code response = 200 then
                    (case write_bytes L filepath (content response) of
                       Some e \<Rightarrow> (Inr (False, Some e), [])
                     | None \<Rightarrow> (Inr (True, None), [(filepath, content response)]))
                  else (Inr (False, Some (''HTTP '' @ str_int (status_code response))), [])))"

text \<open>The retry test of the drain loop, lines 80-85, on the error string.\<close>

definition retryable :: "string \<Rightarrow> bool" where
  "retryable err \<longleftrightarrow>
     startswith err ''HTTP 5'' \<or> startswith err ''HTTP 408'' \<or> startswith err ''HTTP 429''
     \<or> \<not> startswith err ''HTTP''"

section \<open>The orchestrator\<close>

text \<open>
  \<^verbatim>\<open>_download_images\<close>, lines 45-106. The control loop is sequential; what it cannot decide
  is when a submitted call finishes and what the libraries answer during it. Both are
  given by an environment: \<open>lib env k\<close> are the library answers during the call behind
  the \<open>k\<close>-th \<^verbatim>\<open>Future\<close> (futures are numbered in the order of \<^verbatim>\<open>executor.submit\<close>), and
  \<open>future_done env t k\<close> is what \<^verbatim>\<open>f.done()\<close> answers for that future in the \<open>t\<close>-th
  pass of the outer loop.
\<close>

record env =
  lib :: "nat \<Rightarrow> library"
  future_done :: "nat \<Rightarrow> nat \<Rightarrow> bool"

text \<open>
  The local variables of \<^verbatim>\<open>_download_images\<close>, and the two effects of the loop as logs:
  \<open>submitted\<close> lists the URLs of the \<^verbatim>\<open>executor.submit\<close> calls in order (so the next
  future is number \<open>length submitted\<close>), \<open>printed\<close> the progress lines
  (downloaded, total, remaining, failed).
\<close>

record state =
  success_count :: int
  fail_count :: int
  total_urls :: int
  remaining_urls :: int
  pending_urls :: "string list"
  failed_forever_urls :: "string list"
  future_to_url :: "(nat \<times> string) list"
  url_to_attempts :: "string \<rightharpoonup> int"
  submitted :: "string list"
  printed :: "(int \<times> int \<times> int \<times> int) list"

text \<open>Lines 53-62.\<close>

definition init_state :: "string list \<Rightarrow> state" where
  "init_state urls =
     \<lparr>success_count = 0, fail_count = 0,
      total_urls = int (length urls), remaining_urls = int (length urls),
      pending_urls = urls, failed_forever_urls = [], future_to_url = [],
      url_to_attempts = map_of (map (\<lambda>url. (url, 1)) urls),
      submitted = [], printed = []\<rparr>"

text \<open>
  Lines 67-70, the inner \<^verbatim>\<open>while pending_urls\<close>. A new \<^verbatim>\<open>Future\<close> is never a key of
  \<^verbatim>\<open>future_to_url\<close> already, so the assignment adds an entry at the end.
\<close>

function submit_pending :: "state \<Rightarrow> state" where
  "submit_pending s =
     (case pending_urls s of
        [] \<Rightarrow> s
      | url # rest \<Rightarrow>
          submit_pending
            (s\<lparr>pending_urls := rest,
               future_to_url := future_to_url s @ [(length (submitted s), url)],
               submitted := submitted s @ [url]\<rparr>))"
  by pat_completeness auto
termination
  by (relation "measure (\<lambda>s. length (pending_urls s))") auto

declare submit_pending.simps [simp del]

text \<open>
  Lines 74-92, the body of the \<^verbatim>\<open>for\<close> loop for one completed future.
  \<^verbatim>\<open>future.result()\<close> returns what the submitted \<^verbatim>\<open>download_image(url, output_dir)\<close>
  returned, or raises what it raised. The model reads the URL from \<^verbatim>\<open>future_to_url\<close> first,
  to know which call the future stands for; the source reads it on line 75, after the
  result, and raises \<^verbatim>\<open>KeyError\<close> for a missing key there. The test of lines 80-86 reads
  \<^verbatim>\<open>url_to_attempts[url]\<close> only when the prefix test holds (\<^verbatim>\<open>and\<close> short-circuits).
\<close>

definition drop_future :: "nat \<Rightarrow> state \<Rightarrow> state" where
  \<comment> \<open>the effect of \<^verbatim>\<open>future_to_url.pop(future)\<close> on the dictionary, line 75\<close>
  "drop_future future s =
     s\<lparr>future_to_url := filter (\<lambda>(f, u). f \<noteq> future) (future_to_url s)\<rparr>"

definition handle_future :: "env \<Rightarrow> int \<Rightarrow> py_path \<Rightarrow> nat \<Rightarrow> state \<Rightarrow> error + state" where
  "handle_future env max_attempts output_dir future s =
     (case map_of (future_to_url s) future of
        None \<Rightarrow> Inl KeyError
      | Some url \<Rightarrow>
          (case fst (download_image (lib env future) url output_dir) of
             Inl e \<Rightarrow> Inl e
           | Inr (success, err) \<Rightarrow>
               (let s = drop_future future s
                in if success then
                     Inr (s\<lparr>success_count := success_count s + 1,
                            remaining_urls := remaining_urls s - 1\<rparr>)
                   else
                     (case err of
                        None \<Rightarrow> Inl AttributeError
                      | Some msg \<Rightarrow>
                          if retryable msg then
                            (case url_to_attempts s url of
                               None \<Rightarrow> Inl KeyError
                             | Some a \<Rightarrow>
                                 if a < max_attempts then
                                   Inr (s\<lparr>pending_urls := pending_urls s @ [url],
                                          url_to_attempts := (url_to_attempts s)(url \<mapsto> a + 1)\<rparr>)
                                 else
                                   Inr (s\<lparr>failed_forever_urls := failed_forever_urls s @ [url],
                                          fail_count := fail_count s + 1,
                                          remaining_urls := remaining_urls s - 1\<rparr>))
                          else
                            Inr (s\<lparr>failed_forever_urls := failed_forever_urls s @ [url],
                                   fail_count := fail_count s + 1,
                                   remaining_urls := remaining_urls s - 1\<rparr>)))))"

text \<open>Line 73, the \<^verbatim>\<open>for\<close> loop over the futures that were done when the list was built.\<close>

fun drain :: "env \<Rightarrow> int \<Rightarrow> py_path \<Rightarrow> nat list \<Rightarrow> state \<Rightarrow> error + state" where
  "drain env max_attempts output_dir [] s = Inr s"
| "drain env max_attempts output_dir (future # rest) s =
     (case handle_future env max_attempts output_dir future s of
        Inl e \<Rightarrow> Inl e
      | Inr s' \<Rightarrow> drain env max_attempts output_dir rest s')"

text \<open>Lines 66-104, one pass of the outer loop: submit, drain, print.\<close>

definition loop_body :: "env \<Rightarrow> int \<Rightarrow> py_path \<Rightarrow> nat \<Rightarrow> state \<Rightarrow> error + state" where
  "loop_body env max_attempts output_dir t s =
     (let s1 = submit_pending s;
          done_futures = filter (future_done env t) (map fst (future_to_url s1))
      in case drain env max_attempts output_dir done_futures s1 of
           Inl e \<Rightarrow> Inl e
         | Inr s2 \<Rightarrow>
             Inr (s2\<lparr>printed := printed s2 @
                    [(success_count s2, total_urls s2, remaining_urls s2, fail_count s2)]\<rparr>))"

text \<open>
  Line 65, \<^verbatim>\<open>while pending_urls or future_to_url\<close>. The loop need not end (a future may
  never be done), so it is a partial function: \<open>None\<close> is a run that never returns,
  \<open>Some (Inl e)\<close> one that raises, \<open>Some (Inr s)\<close> one that leaves the loop in state \<open>s\<close>.
\<close>

partial_function (option) while_loop ::
  "env \<Rightarrow> int \<Rightarrow> py_path \<Rightarrow> nat \<Rightarrow> state \<Rightarrow> (error + state) option" where
  "while_loop env max_attempts output_dir t s =
     (if pending_urls s \<noteq> [] \<or> future_to_url s \<noteq> [] then
        (case loop_body env max_attempts output_dir t s of
           Inl e \<Rightarrow> Some (Inl e)
         | Inr s' \<Rightarrow> while_loop env max_attempts output_dir (Suc t) s')
      else Some (Inr s))"

declare while_loop.simps [code]

text \<open>
  The executor of line 64, \<^verbatim>\<open>concurrent.futures.ThreadPoolExecutor\<close> (CPython 3.8 and later),
  as far as the run uses it. The constructor refuses \<^verbatim>\<open>max_workers <= 0\<close>. \<^verbatim>\<open>submit\<close> puts
  the work item into the queue and then, unless the idle semaphore can be taken, starts one
  more worker thread while fewer than \<^verbatim>\<open>max_workers\<close> exist. A worker thread that runs no
  item takes the next item from the queue and runs it; when the item is finished the
  thread releases the idle semaphore. A future is identified by its submission number;
  \<open>running\<close> lists the futures whose call is being executed by a worker thread.
\<close>

record pool =
  pool_max_workers :: int
  threads :: nat
  idle_semaphore :: nat
  work_queue :: "nat list"
  running :: "nat list"
  finished :: "nat list"

definition new_pool :: "int \<Rightarrow> error + pool" where
  "new_pool max_workers =
     (if max_workers \<le> 0 then Inl (LibraryError ''max_workers must be greater than 0'')
      else Inr \<lparr>pool_max_workers = max_workers, threads = 0, idle_semaphore = 0,
                work_queue = [], running = [], finished = []\<rparr>)"

text \<open>
  What happens to the executor: the control loop submits (line 69), a worker thread takes
  an item from the queue, a worker thread finishes the item it runs. An event that cannot
  happen in a state (no free thread, empty queue, a future that is not running) leaves it
  unchanged.
\<close>

datatype pool_event = Submit nat | Take | Finish nat

fun pool_step :: "pool_event \<Rightarrow> pool \<Rightarrow> pool" where
  "pool_step (Submit k) p =
     (let p = p\<lparr>work_queue := work_queue p @ [k]\<rparr>
      in if 0 < idle_semaphore p then p\<lparr>idle_semaphore := idle_semaphore p - 1\<rparr>
         else if int (threads p) < pool_max_workers p then p\<lparr>threads := Suc (threads p)\<rparr>
         else p)"
| "pool_step Take p =
     (case work_queue p of
        [] \<Rightarrow> p
      | k # rest \<Rightarrow>
          if length (running p) < threads p
          then p\<lparr>work_queue := rest, running := running p @ [k]\<rparr>
          else p)"
| "pool_step (Finish k) p =
     (if k \<in> set (running p)
      then p\<lparr>running := remove1 k (running p), finished := finished p @ [k],
             idle_semaphore := Suc (idle_semaphore p)\<rparr>
      else p)"

text \<open>The \<^verbatim>\<open>executor.submit\<close> calls of the dispatch step that starts in state \<open>s\<close>: one for
  each pending URL, for the futures numbered from \<open>length (submitted s)\<close> on.\<close>

definition submit_events :: "state \<Rightarrow> pool_event list" where
  "submit_events s =
     map Submit [length (submitted s) ..< length (submitted s) + length (pending_urls s)]"

text \<open>
  \<^verbatim>\<open>_download_images(urls)\<close> inside \<^verbatim>\<open>download_images(urls, output_dir, max_attempts=..,
  max_workers=..)\<close>. Line 64 creates the executor with \<^verbatim>\<open>max_workers\<close>, which raises for
  \<^verbatim>\<open>max_workers <= 0\<close> before the loop is entered. The loop reads the executor only through
  \<^verbatim>\<open>f.done()\<close> and \<^verbatim>\<open>future.result()\<close>, which the environment answers; the states the
  executor goes through during the run are given by \<open>executor_state\<close> below.
\<close>

definition run :: "env \<Rightarrow> int \<Rightarrow> int \<Rightarrow> py_path \<Rightarrow> string list \<Rightarrow> (error + state) option" where
  "run env max_attempts max_workers output_dir urls =
     (case new_pool max_workers of
        Inl e \<Rightarrow> Some (Inl e)
      | Inr executor \<Rightarrow> while_loop env max_attempts output_dir 0 (init_state urls))"

definition inner_download_images ::
  "env \<Rightarrow> int \<Rightarrow> int \<Rightarrow> py_path \<Rightarrow> string list \<Rightarrow> (error + string list) option" where
  "inner_download_images env max_attempts max_workers output_dir urls =
     map_option (map_sum id failed_forever_urls) (run env max_attempts max_workers output_dir urls)"

section \<open>Library answers used in the examples\<close>

text \<open>
  \<open>completed parsed code body\<close>: \<^verbatim>\<open>urlparse\<close> answers \<open>parsed\<close>, the GET completes with
  status \<open>code\<close> and payload \<open>body\<close>, and the write succeeds. \<open>get_raises parsed msg\<close>:
  \<^verbatim>\<open>requests.get\<close> raises an exception whose message is \<open>msg\<close>. \<open>urlparse_raises msg\<close>:
  \<^verbatim>\<open>urlparse\<close> raises \<^verbatim>\<open>ValueError(msg)\<close> (and so would \<^verbatim>\<open>requests.get\<close>, which is not
  reached).
\<close>

definition completed :: "parsed_url \<Rightarrow> int \<Rightarrow> string \<Rightarrow> library" where
  "completed parsed code body =
     \<lparr>urlparse = (\<lambda>url. Inr parsed),
      requests_get = (\<lambda>url. Inr \<lparr>status_code = code, content = body\<rparr>),
      write_bytes = (\<lambda>filepath data. None)\<rparr>"

definition get_raises :: "parsed_url \<Rightarrow> string \<Rightarrow> library" where
  "get_raises parsed msg =
     \<lparr>urlparse = (\<lambda>url. Inr parsed),
      requests_get = (\<lambda>url. Inl msg),
      write_bytes = (\<lambda>filepath data. None)\<rparr>"

definition urlparse_raises :: "string \<Rightarrow> library" where
  "urlparse_raises msg =
     \<lparr>urlparse = (\<lambda>url. Inl msg),
      requests_get = (\<lambda>url. Inl msg),
      write_bytes = (\<lambda>filepath data. None)\<rparr>"

text \<open>An environment in which every call gets the same answers and every future is done
  at the first poll after its submission.\<close>

definition prompt_env :: "library \<Rightarrow> env" where
  "prompt_env L = \<lparr>lib = (\<lambda>k. L), future_done = (\<lambda>t k. True)\<rparr>"

text \<open>An environment in which every call gets the same answers and no future is done at
  the first poll, every future from the second poll on.\<close>

definition slow_env :: "library \<Rightarrow> env" where
  "slow_env L = \<lparr>lib = (\<lambda>k. L), future_done = (\<lambda>t k. 0 < t)\<rparr>"

text \<open>The message of the exception \<^verbatim>\<open>requests\<close> raises when a connection is refused or
  times out starts with the name of urllib3's connection pool.\<close>

definition pool_message :: string where
  "pool_message =
     ''HTTPSConnectionPool(host='' @ [CHR 0x27] @ ''example.com'' @ [CHR 0x27] @
     '', port=443): Read timed out. (read timeout=30)''"

text \<open>What \<^verbatim>\<open>urlparse\<close> answers for \<^verbatim>\<open>https://example.com/a.png\<close> and for
  \<^verbatim>\<open>http://example.com:8080/\<close>.\<close>

definition png :: parsed_url where
  "png = \<lparr>path = ''/a.png'', netloc = ''example.com''\<rparr>"

definition port_home :: parsed_url where
  "port_home = \<lparr>path = ''/'', netloc = ''example.com:8080''\<rparr>"

text \<open>The state in which the run on that one URL leaves the loop when the server answers 404.\<close>

definition one_failed :: state where
  "one_failed =
     \<lparr>success_count = 0, fail_count = 1, total_urls = 1, remaining_urls = 0,
      pending_urls = [], failed_forever_urls = [''https://example.com/a.png''],
      future_to_url = [],
      url_to_attempts = map_of [(''https://example.com/a.png'', 1)],
      submitted = [''https://example.com/a.png''], printed = [(0, 1, 0, 1)]\<rparr>"

section \<open>The spec's notions\<close>

text \<open>
  The spec's failure reasons, its retry classification (section 4.2), and the error string
  by which \<^verbatim>\<open>download_image\<close> reports each reason (lines 39 and 41).
\<close>

datatype reason = HttpStatus int | Transport string

fun spec_retryable :: "reason \<Rightarrow> bool" where
  "spec_retryable (Transport msg) = True"
| "spec_retryable (HttpStatus c) = ((500 \<le> c \<and> c \<le> 599) \<or> c = 408 \<or> c = 429)"

fun reported :: "reason \<Rightarrow> string" where
  "reported (HttpStatus c) = ''HTTP '' @ str_int c"
| "reported (Transport msg) = msg"

text \<open>The host name inside a network location \<^verbatim>\<open>user:password@host:port\<close>: what follows
  the last \<^verbatim>\<open>@\<close>, up to the colon of the port.\<close>

definition host_name :: "string \<Rightarrow> string" where
  "host_name loc = takeWhile (\<lambda>c. c \<noteq> CHR '':'') (last (split_sep (CHR ''@'') loc))"

text \<open>The spec's bound on in-flight fetches (section 5 and the glossary: dispatched, not yet
  drained).\<close>

definition within_concurrency :: "int \<Rightarrow> state \<Rightarrow> bool" where
  "within_concurrency max_workers s \<longleftrightarrow> int (length (future_to_url s)) \<le> max_workers"

section \<open>States of a run\<close>

text \<open>
  \<open>reachable env max_attempts output_dir urls t s\<close>: in the run on \<open>urls\<close>, \<open>s\<close> is the
  state at the head of the outer loop after \<open>t\<close> passes. For \<open>t > 0\<close> it is the state
  in which the \<open>t\<close>-th progress line has just been printed.
\<close>

inductive reachable :: "env \<Rightarrow> int \<Rightarrow> py_path \<Rightarrow> string list \<Rightarrow> nat \<Rightarrow> state \<Rightarrow> bool"
  for env max_attempts output_dir urls where
  start: "reachable env max_attempts output_dir urls 0 (init_state urls)"
| pass: "reachable env max_attempts output_dir urls t s \<Longrightarrow>
         pending_urls s \<noteq> [] \<or> future_to_url s \<noteq> [] \<Longrightarrow>
         loop_body env max_attempts output_dir t s = Inr s' \<Longrightarrow>
         reachable env max_attempts output_dir urls (Suc t) s'"

text \<open>The keys of \<^verbatim>\<open>future_to_url\<close> are distinct futures that were submitted.\<close>

definition wf_futures :: "state \<Rightarrow> bool" where
  "wf_futures s \<longleftrightarrow>
     distinct (map fst (future_to_url s))
     \<and> (\<forall>k \<in> fst ` set (future_to_url s). k < length (submitted s))"

text \<open>The counters agree with the queue and the dictionary, and so did every printed line.\<close>

definition counters_ok :: "state \<Rightarrow> bool" where
  "counters_ok s \<longleftrightarrow>
     success_count s + fail_count s + remaining_urls s = total_urls s
     \<and> remaining_urls s = int (length (pending_urls s) + length (future_to_url s))
     \<and> (\<forall>(sc, tot, rem, fc) \<in> set (printed s). sc + fc + rem = tot \<and> 0 \<le> rem)"

text \<open>Every URL in the queue, in the dictionary of futures or in the failure list comes
  from the input, no more often than it occurs there.\<close>

definition items_within :: "string list \<Rightarrow> state \<Rightarrow> bool" where
  "items_within urls s \<longleftrightarrow>
     mset (pending_urls s) + mset (map snd (future_to_url s)) + mset (failed_forever_urls s)
       \<subseteq># mset urls"

text \<open>
  Where one URL stands, with the number of \<^verbatim>\<open>executor.submit\<close> calls made for it so far:
  waiting for its \<open>a\<close>-th attempt, in its \<open>a\<close>-th attempt, or failed for good after
  \<open>max_attempts\<close> attempts.
\<close>

definition url_progress :: "int \<Rightarrow> string \<Rightarrow> state \<Rightarrow> bool" where
  "url_progress max_attempts u s \<longleftrightarrow>
     (\<exists>a. url_to_attempts s u = Some a \<and> 1 \<le> a \<and> a \<le> max_attempts \<and>
        ((u \<in> set (pending_urls s) \<and> int (count_list (submitted s) u) = a - 1)
       \<or> (u \<in> snd ` set (future_to_url s) \<and> int (count_list (submitted s) u) = a)
       \<or> (u \<in> set (failed_forever_urls s) \<and> int (count_list (submitted s) u) = max_attempts)))"

text \<open>The retries the attempt counters still allow, the work a run has left, and a bound
  on the number of futures it can ever create.\<close>

definition budget :: "int \<Rightarrow> state \<Rightarrow> nat" where
  "budget max_attempts s =
     (\<Sum>u \<in> dom (url_to_attempts s). nat (max_attempts - the (url_to_attempts s u)))"

definition work_left :: "int \<Rightarrow> state \<Rightarrow> nat" where
  "work_left max_attempts s =
     length (pending_urls s) + length (future_to_url s) + budget max_attempts s"

definition futures_bound :: "int \<Rightarrow> state \<Rightarrow> nat" where
  "futures_bound max_attempts s =
     length (submitted s) + length (pending_urls s) + budget max_attempts s"

section \<open>States of the executor during a run\<close>

text \<open>
  \<open>executor_state env max_attempts max_workers output_dir urls t s p\<close>: \<open>p\<close> is a state the
  executor can be in when the control loop is at the head of the outer loop, in state \<open>s\<close>
  after \<open>t\<close> passes. It is created on line 64; worker threads take and finish items at any
  time, in any order; a pass of the loop submits its pending URLs.
\<close>

inductive executor_state ::
  "env \<Rightarrow> int \<Rightarrow> int \<Rightarrow> py_path \<Rightarrow> string list \<Rightarrow> nat \<Rightarrow> state \<Rightarrow> pool \<Rightarrow> bool"
  for env max_attempts max_workers output_dir urls where
  created: "new_pool max_workers = Inr p \<Longrightarrow>
            executor_state env max_attempts max_workers output_dir urls 0 (init_state urls) p"
| took: "executor_state env max_attempts max_workers output_dir urls t s p \<Longrightarrow>
         executor_state env max_attempts max_workers output_dir urls t s (pool_step Take p)"
| finished_one: "executor_state env max_attempts max_workers output_dir urls t s p \<Longrightarrow>
         executor_state env max_attempts max_workers output_dir urls t s (pool_step (Finish k) p)"
| passed: "executor_state env max_attempts max_workers output_dir urls t s p \<Longrightarrow>
         pending_urls s \<noteq> [] \<or> future_to_url s \<noteq> [] \<Longrightarrow>
         loop_body env max_attempts output_dir t s = Inr s' \<Longrightarrow>
         executor_state env max_attempts max_workers output_dir urls (Suc t) s'
           (fold pool_step (submit_events s) p)"

text \<open>Every running item is run by a thread of its own, and there are at most
  \<^verbatim>\<open>max_workers\<close> threads.\<close>

definition pool_ok :: "pool \<Rightarrow> bool" where
  "pool_ok p \<longleftrightarrow> length (running p) \<le> threads p \<and> int (threads p) \<le> pool_max_workers p"

text \<open>The run on three URLs with \<^verbatim>\<open>max_workers = 2\<close> after its first pass, when no future
  is done yet: three futures are dispatched and not drained, two of them run, one waits in
  the queue of the executor.\<close>

definition three_in_flight :: state where
  "three_in_flight =
     \<lparr>success_count = 0, fail_count = 0, total_urls = 3, remaining_urls = 3,
      pending_urls = [], failed_forever_urls = [],
      future_to_url = [(0, ''a''), (1, ''b''), (2, ''c'')],
      url_to_attempts = map_of [(''a'', 1), (''b'', 1), (''c'', 1)],
      submitted = [''a'', ''b'', ''c''], printed = [(0, 3, 3, 0)]\<rparr>"

definition two_running :: pool where
  "two_running =
     \<lparr>pool_max_workers = 2, threads = 2, idle_semaphore = 0,
      work_queue = [2], running = [0, 1], finished = []\<rparr>"

section \<open>Lemmas\<close>

lemma download_image_shape:
  "fst (download_image L url d) = Inr (True, None)
   \<or> (\<exists>msg. fst (download_image L url d) = Inr (False, Some msg))
   \<or> (\<exists>msg. urlparse L url = Inl msg \<and> fst (download_image L url d) = Inl (LibraryError msg))"
  unfolding download_image_def Let_def
  by (simp split: sum.split option.split)

lemma submit_pending_closed:
  "submit_pending s =
     s\<lparr>pending_urls := [],
       future_to_url := future_to_url s @
          zip [length (submitted s) ..< length (submitted s) + length (pending_urls s)] (pending_urls s),
       submitted := submitted s @ pending_urls s\<rparr>"
proof (induction "pending_urls s" arbitrary: s)
  case Nil
  then show ?case by (simp add: submit_pending.simps[of s])
next
  case (Cons url rest)
  from Cons(2)[symmetric] have eq: "pending_urls s = url # rest" .
  let ?s1 = "s\<lparr>pending_urls := rest,
               future_to_url := future_to_url s @ [(length (submitted s), url)],
               submitted := submitted s @ [url]\<rparr>"
  have "rest = pending_urls ?s1" by simp
  from Cons(1)[OF this] have "submit_pending ?s1 = ?s1\<lparr>pending_urls := [],
       future_to_url := future_to_url ?s1 @
          zip [length (submitted ?s1) ..< length (submitted ?s1) + length (pending_urls ?s1)] (pending_urls ?s1),
       submitted := submitted ?s1 @ pending_urls ?s1\<rparr>" .
  moreover have "[length (submitted s) ..< length (submitted s) + length (url # rest)]
      = length (submitted s) # [Suc (length (submitted s)) ..< Suc (length (submitted s)) + length rest]"
    by (simp add: upt_conv_Cons del: upt_Suc)
  ultimately show ?case 
    by (simp add: submit_pending.simps[of s] eq del: upt_Suc)
qed

lemma submit_pending_fields [simp]:
  "pending_urls (submit_pending s) = []"
  "future_to_url (submit_pending s) = future_to_url s @
      zip [length (submitted s) ..< length (submitted s) + length (pending_urls s)] (pending_urls s)"
  "submitted (submit_pending s) = submitted s @ pending_urls s"
  "success_count (submit_pending s) = success_count s"
  "fail_count (submit_pending s) = fail_count s"
  "total_urls (submit_pending s) = total_urls s"
  "remaining_urls (submit_pending s) = remaining_urls s"
  "failed_forever_urls (submit_pending s) = failed_forever_urls s"
  "url_to_attempts (submit_pending s) = url_to_attempts s"
  "printed (submit_pending s) = printed s"
  by (subst submit_pending_closed, simp)+

lemma submit_pending_urls:
  "map snd (future_to_url (submit_pending s)) = map snd (future_to_url s) @ pending_urls s"
  by simp

lemma handle_future_cases:
  assumes "handle_future env m d f s = Inr s'"
  obtains
    (success) url where "map_of (future_to_url s) f = Some url"
      and "fst (download_image (lib env f) url d) = Inr (True, None)"
      and "s' = (drop_future f s)\<lparr>success_count := success_count s + 1,
                                  remaining_urls := remaining_urls s - 1\<rparr>"
  | (requeue) url msg a where "map_of (future_to_url s) f = Some url"
      and "fst (download_image (lib env f) url d) = Inr (False, Some msg)"
      and "retryable msg" and "url_to_attempts s url = Some a" and "a < m"
      and "s' = (drop_future f s)\<lparr>pending_urls := pending_urls s @ [url],
                                  url_to_attempts := (url_to_attempts s)(url \<mapsto> a + 1)\<rparr>"
  | (failed) url msg where "map_of (future_to_url s) f = Some url"
      and "fst (download_image (lib env f) url d) = Inr (False, Some msg)"
      and "retryable msg \<longrightarrow> (\<exists>a. url_to_attempts s url = Some a \<and> \<not> a < m)"
      and "s' = (drop_future f s)\<lparr>failed_forever_urls := failed_forever_urls s @ [url],
                                  fail_count := fail_count s + 1,
                                  remaining_urls := remaining_urls s - 1\<rparr>"
proof -
  from assms obtain url where u: "map_of (future_to_url s) f = Some url"
    by (auto simp: handle_future_def split: option.splits)
  from download_image_shape[of "lib env f" url d] assms u
  consider "fst (download_image (lib env f) url d) = Inr (True, None)"
    | msg where "fst (download_image (lib env f) url d) = Inr (False, Some msg)"
    by (auto simp: handle_future_def)
  then show thesis
  proof cases
    case 1
    with assms u have "s' = (drop_future f s)\<lparr>success_count := success_count s + 1,
                                  remaining_urls := remaining_urls s - 1\<rparr>"
      by (simp add: handle_future_def drop_future_def)
    with u 1 show thesis by (rule success)
  next
    case 2
    show thesis
    proof (cases "retryable msg \<and> (\<exists>a. url_to_attempts s url = Some a \<and> a < m)")
      case True
      then obtain a where a: "url_to_attempts s url = Some a" "a < m" and r: "retryable msg" by auto
      with assms u 2 have "s' = (drop_future f s)\<lparr>pending_urls := pending_urls s @ [url],
                                  url_to_attempts := (url_to_attempts s)(url \<mapsto> a + 1)\<rparr>"
        by (simp add: handle_future_def drop_future_def)
      with u 2 r a show thesis by (rule requeue)
    next
      case False
      with assms u 2 have "s' = (drop_future f s)\<lparr>failed_forever_urls := failed_forever_urls s @ [url],
                                  fail_count := fail_count s + 1,
                                  remaining_urls := remaining_urls s - 1\<rparr>"
        and "retryable msg \<longrightarrow> (\<exists>a. url_to_attempts s url = Some a \<and> \<not> a < m)"
        by (auto simp: handle_future_def drop_future_def Let_def split: option.splits if_splits)
      with u 2 show thesis by (intro failed)
    qed
  qed
qed

lemma drain_preserves:
  assumes "drain env m d fs s = Inr s'" and "P s"
    and "\<And>f s s'. P s \<Longrightarrow> handle_future env m d f s = Inr s' \<Longrightarrow> P s'"
  shows "P s'"
  using assms(1,2)
proof (induction fs arbitrary: s)
  case Nil
  then show ?case by simp
next
  case (Cons f fs)
  then show ?case by (auto split: sum.splits intro: assms(3))
qed

lemma loop_body_Inr:
  assumes "loop_body env m d t s = Inr s'"
  obtains s2 where
    "drain env m d (filter (future_done env t) (map fst (future_to_url (submit_pending s)))) (submit_pending s) = Inr s2"
    and "s' = s2\<lparr>printed := printed s2 @
                    [(success_count s2, total_urls s2, remaining_urls s2, fail_count s2)]\<rparr>"
  using assms by (auto simp: loop_body_def Let_def split: sum.splits)

lemma remove_key:
  assumes "distinct (map fst xs)" and "map_of xs k = Some u"
  shows "mset xs = add_mset (k, u) (mset (filter (\<lambda>(f, u). f \<noteq> k) xs))"
  using assms
proof (induction xs)
  case Nil
  then show ?case by simp
next
  case (Cons x xs)
  obtain f v where x: "x = (f, v)" by (cases x)
  show ?case
  proof (cases "f = k")
    case True
    with Cons.prems x have "v = u" and "k \<notin> fst ` set xs" by auto
    then have "filter (\<lambda>(f, u). f \<noteq> k) xs = xs"
      by (force simp: filter_id_conv)
    with True x \<open>v = u\<close> show ?thesis by simp
  next
    case False
    with Cons x show ?thesis by simp
  qed
qed

lemma remove_key_length:
  assumes "distinct (map fst xs)" and "map_of xs k = Some u"
  shows "length xs = Suc (length (filter (\<lambda>(f, u). f \<noteq> k) xs))"
proof -
  from remove_key[OF assms] have "size (mset xs) = Suc (size (mset (filter (\<lambda>(f, u). f \<noteq> k) xs)))"
    by (metis size_add_mset)
  then show ?thesis by (simp only: size_mset)
qed

lemma remove_key_urls:
  assumes "distinct (map fst xs)" and "map_of xs k = Some u"
  shows "mset (map snd xs) = add_mset u (mset (map snd (filter (\<lambda>(f, u). f \<noteq> k) xs)))"
proof -
  from remove_key[OF assms] have "image_mset snd (mset xs) = add_mset u (image_mset snd (mset (filter (\<lambda>(f, u). f \<noteq> k) xs)))"
    by (metis image_mset_add_mset snd_conv)
  then show ?thesis by (simp only: mset_map)
qed

lemma wf_futures_init: "wf_futures (init_state urls)"
  by (simp add: wf_futures_def init_state_def)

lemma wf_futures_submit: "wf_futures s \<Longrightarrow> wf_futures (submit_pending s)"
  unfolding wf_futures_def by (auto simp del: upt_Suc dest!: set_zip_leftD)

lemma wf_futures_handle:
  assumes "wf_futures s" and "handle_future env m d f s = Inr s'"
  shows "wf_futures s'"
  using assms(2,1)
  by (cases rule: handle_future_cases) (auto simp: wf_futures_def drop_future_def distinct_map_filter)

lemma wf_futures_loop_body:
  assumes "wf_futures s" and "loop_body env m d t s = Inr s'"
  shows "wf_futures s'"
proof -
  from assms(2) obtain s2 where d: "drain env m d (filter (future_done env t) (map fst (future_to_url (submit_pending s)))) (submit_pending s) = Inr s2"
    and s': "s' = s2\<lparr>printed := printed s2 @
                    [(success_count s2, total_urls s2, remaining_urls s2, fail_count s2)]\<rparr>"
    by (rule loop_body_Inr)
  from d wf_futures_submit[OF assms(1)] have "wf_futures s2"
    by (rule drain_preserves) (rule wf_futures_handle)
  with s' show ?thesis by (simp add: wf_futures_def)
qed


lemma while_loop_reachable_aux:
  assumes "while_loop env0 m0 d0 t0 s0 = Some y0"
  shows "\<forall>s'. y0 = Inr s' \<longrightarrow> reachable env0 m0 d0 urls t0 s0 \<longrightarrow>
     (\<exists>t'. reachable env0 m0 d0 urls t' s' \<and> pending_urls s' = [] \<and> future_to_url s' = [])"
proof (rule while_loop.raw_induct[where P = "\<lambda>env m d t s y. \<forall>s'. y = Inr s' \<longrightarrow> reachable env m d urls t s \<longrightarrow>
     (\<exists>t'. reachable env m d urls t' s' \<and> pending_urls s' = [] \<and> future_to_url s' = [])", OF _ assms])
  fix wl env m d t s y
  assume IH: "\<And>env m d t s y. wl env m d t s = Some y \<Longrightarrow> \<forall>s'. y = Inr s' \<longrightarrow> reachable env m d urls t s \<longrightarrow>
     (\<exists>t'. reachable env m d urls t' s' \<and> pending_urls s' = [] \<and> future_to_url s' = [])"
    and eq: "(if pending_urls s \<noteq> [] \<or> future_to_url s \<noteq> [] then
                 (case loop_body env m d t s of Inl e \<Rightarrow> Some (Inl e)
                  | Inr s' \<Rightarrow> wl env m d (Suc t) s')
               else Some (Inr s)) = Some y"
  show "\<forall>s'. y = Inr s' \<longrightarrow> reachable env m d urls t s \<longrightarrow>
     (\<exists>t'. reachable env m d urls t' s' \<and> pending_urls s' = [] \<and> future_to_url s' = [])"
  proof (cases "pending_urls s \<noteq> [] \<or> future_to_url s \<noteq> []")
    case False
    with eq show ?thesis by auto
  next
    case True
    show ?thesis
    proof (cases "loop_body env m d t s")
      case (Inl e)
      with True eq show ?thesis by auto
    next
      case (Inr s1)
      with True eq have "wl env m d (Suc t) s1 = Some y" by simp
      from IH[OF this] reachable.pass[OF _ True Inr] show ?thesis by blast
    qed
  qed
qed

lemma while_loop_reachable:
  assumes "while_loop env m d t s = Some (Inr s')" and "reachable env m d urls t s"
  shows "\<exists>t'. reachable env m d urls t' s' \<and> pending_urls s' = [] \<and> future_to_url s' = []"
  using while_loop_reachable_aux[OF assms(1)] assms(2) by blast

lemma run_reachable:
  assumes "run env m w d urls = Some (Inr s')"
  shows "\<exists>t'. reachable env m d urls t' s' \<and> pending_urls s' = [] \<and> future_to_url s' = []"
  using assms while_loop_reachable[OF _ reachable.start]
  by (simp add: run_def split: sum.splits)

lemma counters_ok_init: "counters_ok (init_state urls)"
  by (simp add: counters_ok_def init_state_def)

lemma counters_ok_submit: "counters_ok s \<Longrightarrow> counters_ok (submit_pending s)"
  unfolding counters_ok_def by simp

lemma counters_ok_handle:
  assumes "wf_futures s \<and> counters_ok s" and "handle_future env m d f s = Inr s'"
  shows "wf_futures s' \<and> counters_ok s'"
proof
  from assms show "wf_futures s'" by (blast intro: wf_futures_handle)
  from assms(1) have dk: "distinct (map fst (future_to_url s))" by (simp add: wf_futures_def)
  from assms(2,1) show "counters_ok s'"
    by (cases rule: handle_future_cases)
       (use remove_key_length[OF dk] in \<open>auto simp: counters_ok_def drop_future_def\<close>)
qed

lemma counters_ok_loop_body:
  assumes "wf_futures s" and "counters_ok s" and "loop_body env m d t s = Inr s'"
  shows "counters_ok s'"
proof -
  from assms(3) obtain s2 where d: "drain env m d (filter (future_done env t) (map fst (future_to_url (submit_pending s)))) (submit_pending s) = Inr s2"
    and s': "s' = s2\<lparr>printed := printed s2 @
                    [(success_count s2, total_urls s2, remaining_urls s2, fail_count s2)]\<rparr>"
    by (rule loop_body_Inr)
  from assms(1,2) have "wf_futures (submit_pending s) \<and> counters_ok (submit_pending s)"
    by (simp add: wf_futures_submit counters_ok_submit)
  with d have "wf_futures s2 \<and> counters_ok s2"
    by (rule drain_preserves) (rule counters_ok_handle)
  with s' show ?thesis by (auto simp: counters_ok_def)
qed

lemma reachable_wf: "reachable env m d urls t s \<Longrightarrow> wf_futures s"
  by (induction rule: reachable.induct) (auto intro: wf_futures_init wf_futures_loop_body)

lemma reachable_counters: "reachable env m d urls t s \<Longrightarrow> counters_ok s"
proof (induction rule: reachable.induct)
  case start
  show ?case by (rule counters_ok_init)
next
  case (pass t s s')
  from reachable_wf[OF pass(1)] pass(4) pass(3) show ?case by (rule counters_ok_loop_body)
qed

lemma total_urls_handle: "handle_future env m d f s = Inr s' \<Longrightarrow> total_urls s' = total_urls s"
  by (erule handle_future_cases) (simp_all add: drop_future_def)

lemma total_urls_loop_body:
  assumes "loop_body env m d t s = Inr s'" shows "total_urls s' = total_urls s"
proof -
  from assms obtain s2 where d: "drain env m d (filter (future_done env t) (map fst (future_to_url (submit_pending s)))) (submit_pending s) = Inr s2"
    and s': "s' = s2\<lparr>printed := printed s2 @
                    [(success_count s2, total_urls s2, remaining_urls s2, fail_count s2)]\<rparr>"
    by (rule loop_body_Inr)
  have "total_urls (submit_pending s) = total_urls s" by simp
  with d have "total_urls s2 = total_urls s"
    by (rule drain_preserves) (simp add: total_urls_handle)
  with s' show ?thesis by simp
qed

lemma reachable_total: "reachable env m d urls t s \<Longrightarrow> total_urls s = int (length urls)"
  by (induction rule: reachable.induct) (simp_all add: init_state_def total_urls_loop_body)


subsection \<open>Items\<close>

lemma items_within_init: "items_within urls (init_state urls)"
  by (simp add: items_within_def init_state_def)

lemma items_within_submit: "items_within urls s \<Longrightarrow> items_within urls (submit_pending s)"
  unfolding items_within_def by (simp add: submit_pending_urls ac_simps del: submit_pending_fields(2))

lemma items_within_handle:
  assumes "wf_futures s \<and> items_within urls s" and "handle_future env m d f s = Inr s'"
  shows "wf_futures s' \<and> items_within urls s'"
proof
  from assms show "wf_futures s'" by (blast intro: wf_futures_handle)
  from assms(1) have dk: "distinct (map fst (future_to_url s))" by (simp add: wf_futures_def)
  from assms(1) have sub: "mset (pending_urls s) + mset (map snd (future_to_url s)) + mset (failed_forever_urls s)
       \<subseteq># mset urls" by (simp add: items_within_def)
  from assms(2) show "items_within urls s'"
  proof (cases rule: handle_future_cases)
    case (success url)
    from remove_key_urls[OF dk success(1)]
    have "mset (pending_urls s) + mset (map snd (filter (\<lambda>(f', u). f' \<noteq> f) (future_to_url s))) + mset (failed_forever_urls s)
       \<subseteq># mset (pending_urls s) + mset (map snd (future_to_url s)) + mset (failed_forever_urls s)"
      by simp
    from subset_mset.order_trans[OF this sub]
    have "mset (pending_urls s) + mset (map snd (filter (\<lambda>(f', u). f' \<noteq> f) (future_to_url s))) + mset (failed_forever_urls s)
       \<subseteq># mset urls" .
    with success(3) show ?thesis by (simp add: items_within_def drop_future_def)
  next
    case (requeue url msg a)
    from remove_key_urls[OF dk requeue(1)] sub requeue(6) show ?thesis
      by (simp add: items_within_def drop_future_def)
  next
    case (failed url msg)
    from remove_key_urls[OF dk failed(1)] sub failed(4) show ?thesis
      by (simp add: items_within_def drop_future_def)
  qed
qed


lemma loop_body_preserves:
  assumes "loop_body env m d t s = Inr s'" and "P s"
    and "\<And>s. P s \<Longrightarrow> P (submit_pending s)"
    and "\<And>f s s'. P s \<Longrightarrow> handle_future env m d f s = Inr s' \<Longrightarrow> P s'"
    and "\<And>s x. P s \<Longrightarrow> P (s\<lparr>printed := x\<rparr>)"
  shows "P s'"
proof -
  from assms(1) obtain s2 where d: "drain env m d (filter (future_done env t) (map fst (future_to_url (submit_pending s)))) (submit_pending s) = Inr s2"
    and s': "s' = s2\<lparr>printed := printed s2 @
                    [(success_count s2, total_urls s2, remaining_urls s2, fail_count s2)]\<rparr>"
    by (rule loop_body_Inr)
  from d assms(3)[OF assms(2)] have "P s2"
    by (rule drain_preserves) (rule assms(4))
  with s' show ?thesis by (simp add: assms(5))
qed

lemma reachable_preserves:
  assumes "reachable env m d urls t s" and "P (init_state urls)"
    and "\<And>s. P s \<Longrightarrow> P (submit_pending s)"
    and "\<And>f s s'. P s \<Longrightarrow> handle_future env m d f s = Inr s' \<Longrightarrow> P s'"
    and "\<And>s x. P s \<Longrightarrow> P (s\<lparr>printed := x\<rparr>)"
  shows "P s"
  using assms(1)
proof (induction rule: reachable.induct)
  case start
  show ?case by (rule assms(2))
next
  case (pass t s s')
  from pass(3) pass(4) show ?case
    by (rule loop_body_preserves) (fact assms(3-5))+
qed

lemma reachable_items:
  assumes "reachable env m d urls t s"
  shows "wf_futures s \<and> items_within urls s"
  using assms
proof (rule reachable_preserves)
  show "wf_futures (init_state urls) \<and> items_within urls (init_state urls)"
    by (simp add: wf_futures_init items_within_init)
next
  fix s assume "wf_futures s \<and> items_within urls s"
  then show "wf_futures (submit_pending s) \<and> items_within urls (submit_pending s)"
    by (simp add: wf_futures_submit items_within_submit)
next
  fix f s s' assume "wf_futures s \<and> items_within urls s" "handle_future env m d f s = Inr s'"
  then show "wf_futures s' \<and> items_within urls s'" by (rule items_within_handle)
next
  fix s x assume "wf_futures s \<and> items_within urls s"
  then show "wf_futures (s\<lparr>printed := x\<rparr>) \<and> items_within urls (s\<lparr>printed := x\<rparr>)"
    by (simp add: wf_futures_def items_within_def)
qed

lemma distinct_submultiset:
  assumes "mset xs \<subseteq># mset ys" and "distinct ys"
  shows "distinct xs"
proof -
  have "count (mset xs) a = (if a \<in> set xs then 1 else 0)" for a
  proof (cases "a \<in> set xs")
    case True
    then have "0 < count (mset xs) a" by (rule count_mset_gt_0)
    moreover from assms(1) have "count (mset xs) a \<le> count (mset ys) a"
      by (rule mset_subset_eq_count)
    moreover from assms(2) have "count (mset ys) a \<le> 1"
      by (simp add: distinct_count_atmost_1)
    ultimately have "count (mset xs) a = 1" by linarith
    with True show ?thesis by simp
  next
    case False
    then show ?thesis by simp
  qed
  then show ?thesis by (simp only: distinct_count_atmost_1) simp
qed

lemma items_within_distinct:
  assumes "items_within urls s" and "distinct urls"
  shows "distinct (pending_urls s @ map snd (future_to_url s) @ failed_forever_urls s)"
proof -
  from assms(1) have "mset (pending_urls s @ map snd (future_to_url s) @ failed_forever_urls s) \<subseteq># mset urls"
    by (simp add: items_within_def ac_simps)
  then show ?thesis using assms(2) by (rule distinct_submultiset)
qed

lemma items_within_set:
  assumes "items_within urls s"
  shows "set (pending_urls s) \<union> snd ` set (future_to_url s) \<union> set (failed_forever_urls s) \<subseteq> set urls"
proof -
  from assms have "mset (pending_urls s @ map snd (future_to_url s) @ failed_forever_urls s) \<subseteq># mset urls"
    by (simp add: items_within_def ac_simps)
  from set_mset_mono[OF this] show ?thesis by auto
qed

subsection \<open>Progress of the loop\<close>

lemma filter_key_less:
  assumes "map_of xs k = Some u"
  shows "length (filter (\<lambda>(f, u). f \<noteq> k) xs) < length xs"
proof -
  from assms have "(k, u) \<in> set xs" by (rule map_of_SomeD)
  moreover have "\<not> (\<lambda>(f, u). f \<noteq> k) (k, u)" by simp
  ultimately show ?thesis by (rule length_filter_less)
qed

lemma budget_bump:
  assumes "finite (dom A)" and "A url = Some a" and "a < m"
  shows "(\<Sum>u \<in> dom (A(url \<mapsto> a + 1)). nat (m - the ((A(url \<mapsto> a + 1)) u))) + 1
         = (\<Sum>u \<in> dom A. nat (m - the (A u)))"
proof -
  from assms(2) have in_dom: "url \<in> dom A" by auto
  then have dom_eq: "dom (A(url \<mapsto> a + 1)) = dom A" by auto
  have rest: "(\<Sum>u \<in> dom A - {url}. nat (m - the ((A(url \<mapsto> a + 1)) u)))
            = (\<Sum>u \<in> dom A - {url}. nat (m - the (A u)))"
    by (rule sum.cong) auto
  have "(\<Sum>u \<in> dom A. nat (m - the ((A(url \<mapsto> a + 1)) u)))
        = nat (m - (a + 1)) + (\<Sum>u \<in> dom A - {url}. nat (m - the ((A(url \<mapsto> a + 1)) u)))"
    using assms(1) in_dom by (subst sum.remove[of _ url]) simp_all
  moreover have "(\<Sum>u \<in> dom A. nat (m - the (A u)))
        = nat (m - a) + (\<Sum>u \<in> dom A - {url}. nat (m - the (A u)))"
    using assms(1,2) in_dom by (subst sum.remove[of _ url]) simp_all
  moreover from assms(3) have "nat (m - (a + 1)) + 1 = nat (m - a)" by simp
  ultimately show ?thesis using rest dom_eq by simp
qed

lemma budget_same:
  "url_to_attempts s' = url_to_attempts s \<Longrightarrow> budget m s' = budget m s"
  by (simp add: budget_def)

lemma budget_requeue:
  assumes "finite (dom (url_to_attempts s))" and "url_to_attempts s url = Some a" and "a < m"
    and "url_to_attempts s' = (url_to_attempts s)(url \<mapsto> a + 1)"
  shows "budget m s' + 1 = budget m s"
  unfolding budget_def assms(4) using assms(1-3) by (rule budget_bump)

lemma handle_future_progress:
  assumes "finite (dom (url_to_attempts s))" and "handle_future env m d f s = Inr s'"
  shows "finite (dom (url_to_attempts s')) \<and> work_left m s' < work_left m s
         \<and> futures_bound m s' \<le> futures_bound m s"
  using assms(2)
proof (cases rule: handle_future_cases)
  case (success url)
  from success(3) have "url_to_attempts s' = url_to_attempts s"
    and "pending_urls s' = pending_urls s" and "submitted s' = submitted s"
    and "future_to_url s' = filter (\<lambda>(f', u). f' \<noteq> f) (future_to_url s)"
    by (simp_all add: drop_future_def)
  with assms(1) filter_key_less[OF success(1)] budget_same[of s' s m] show ?thesis
    by (simp add: work_left_def futures_bound_def)
next
  case (requeue url msg a)
  from requeue(6) have u: "url_to_attempts s' = (url_to_attempts s)(url \<mapsto> a + 1)"
    and "pending_urls s' = pending_urls s @ [url]" and "submitted s' = submitted s"
    and "future_to_url s' = filter (\<lambda>(f', u). f' \<noteq> f) (future_to_url s)"
    by (simp_all add: drop_future_def)
  moreover from requeue(4) have "dom ((url_to_attempts s)(url \<mapsto> a + 1)) = dom (url_to_attempts s)"
    by auto
  moreover note budget_requeue[OF assms(1) requeue(4,5) u] filter_key_less[OF requeue(1)] assms(1)
  ultimately show ?thesis
    by (simp add: work_left_def futures_bound_def del: dom_fun_upd fun_upd_apply)
next
  case (failed url msg)
  from failed(4) have "url_to_attempts s' = url_to_attempts s"
    and "pending_urls s' = pending_urls s" and "submitted s' = submitted s"
    and "future_to_url s' = filter (\<lambda>(f', u). f' \<noteq> f) (future_to_url s)"
    by (simp_all add: drop_future_def)
  with assms(1) filter_key_less[OF failed(1)] budget_same[of s' s m] show ?thesis
    by (simp add: work_left_def futures_bound_def)
qed

lemma drain_progress:
  assumes "drain env m d fs s = Inr s'" and "finite (dom (url_to_attempts s))"
  shows "finite (dom (url_to_attempts s')) \<and> work_left m s' + length fs \<le> work_left m s
         \<and> futures_bound m s' \<le> futures_bound m s"
  using assms
proof (induction fs arbitrary: s)
  case Nil
  then show ?case by simp
next
  case (Cons f fs)
  from Cons.prems(1) obtain s1 where h: "handle_future env m d f s = Inr s1"
    and r: "drain env m d fs s1 = Inr s'"
    by (auto split: sum.splits)
  from handle_future_progress[OF Cons.prems(2) h]
  have p: "finite (dom (url_to_attempts s1))" "work_left m s1 < work_left m s"
    "futures_bound m s1 \<le> futures_bound m s" by simp_all
  from Cons.IH[OF r p(1)] p(2,3) show ?case by simp
qed

lemma submit_pending_measures:
  "work_left m (submit_pending s) = work_left m s"
  "futures_bound m (submit_pending s) = futures_bound m s"
  using budget_same[of "submit_pending s" s m]
  by (simp_all add: work_left_def futures_bound_def)

lemma loop_body_progress:
  assumes "loop_body env m d t s = Inr s'" and "finite (dom (url_to_attempts s))"
  shows "finite (dom (url_to_attempts s'))"
    and "work_left m s' + length (filter (future_done env t) (map fst (future_to_url (submit_pending s))))
           \<le> work_left m s"
    and "futures_bound m s' \<le> futures_bound m s"
proof -
  define fs where "fs = filter (future_done env t) (map fst (future_to_url (submit_pending s)))"
  from assms(1) obtain s2 where d: "drain env m d fs (submit_pending s) = Inr s2"
    and s': "s' = s2\<lparr>printed := printed s2 @
                    [(success_count s2, total_urls s2, remaining_urls s2, fail_count s2)]\<rparr>"
    unfolding fs_def by (rule loop_body_Inr)
  from assms(2) have "finite (dom (url_to_attempts (submit_pending s)))" by simp
  from drain_progress[OF d this, of] 
  have p: "finite (dom (url_to_attempts s2))" "work_left m s2 + length fs \<le> work_left m s"
    "futures_bound m s2 \<le> futures_bound m s"
    by (simp_all only: submit_pending_measures)
  from s' have e: "url_to_attempts s' = url_to_attempts s2" "work_left m s' = work_left m s2"
    "futures_bound m s' = futures_bound m s2"
    by (simp_all add: work_left_def futures_bound_def budget_def)
  from p e show "finite (dom (url_to_attempts s'))" by simp
  from p e show "work_left m s' + length (filter (future_done env t) (map fst (future_to_url (submit_pending s))))
           \<le> work_left m s" unfolding fs_def by simp
  from p e show "futures_bound m s' \<le> futures_bound m s" by simp
qed

lemma eventually_all_done:
  fixes P :: "nat \<Rightarrow> nat \<Rightarrow> bool"
  assumes "\<forall>k. \<exists>T. \<forall>t\<ge>T. P t k"
  shows "\<exists>D. \<forall>k<N. \<forall>t\<ge>D. P t k"
proof (induction N)
  case 0
  show ?case by simp
next
  case (Suc N)
  then obtain D where D: "\<And>k t. k < N \<Longrightarrow> D \<le> t \<Longrightarrow> P t k" by blast
  from assms obtain T where T: "\<And>t. T \<le> t \<Longrightarrow> P t N" by blast
  have "P t k" if "k < Suc N" and "max D T \<le> t" for k t
  proof (cases "k = N")
    case True
    from that(2) have "T \<le> t" by simp
    with True show ?thesis by (simp add: T)
  next
    case False
    with that(1) have "k < N" by simp
    moreover from that(2) have "D \<le> t" by simp
    ultimately show ?thesis by (rule D)
  qed
  then show ?case by blast
qed

lemma while_loop_terminates:
  assumes fair: "\<forall>k<N. \<forall>t\<ge>D. future_done env t k"
    and "wf_futures (fst p)" and "finite (dom (url_to_attempts (fst p)))"
    and "futures_bound m (fst p) \<le> N"
  shows "\<exists>r. while_loop env m d (snd p) (fst p) = Some r"
  using assms(2-4)
proof (induction p rule: wf_induct_rule[OF wf_measures[of "[\<lambda>p. work_left m (fst p), \<lambda>p. D - snd p]"]])
  case (1 p)
  obtain s t where p: "p = (s, t)" by (cases p)
  from 1(2-4) p have wf: "wf_futures s" and fin: "finite (dom (url_to_attempts s))"
    and bound: "futures_bound m s \<le> N" by simp_all
  show ?case
  proof (cases "pending_urls s \<noteq> [] \<or> future_to_url s \<noteq> []")
    case False
    then show ?thesis by (subst while_loop.simps) (simp add: p)
  next
    case True
    show ?thesis
    proof (cases "loop_body env m d t s")
      case (Inl e)
      with True show ?thesis by (subst while_loop.simps) (simp add: p)
    next
      case (Inr s1)
      define keys where "keys = map fst (future_to_url (submit_pending s))"
      note prog = loop_body_progress[OF Inr fin, folded keys_def]
      have wf1: "wf_futures s1" using wf Inr by (rule wf_futures_loop_body)
      from prog(3) bound have bound1: "futures_bound m s1 \<le> N" by simp
      have less: "((s1, Suc t), p) \<in> measures [\<lambda>p. work_left m (fst p), \<lambda>p. D - snd p]"
      proof (cases "filter (future_done env t) keys = []")
        case False
        then have "0 < length (filter (future_done env t) keys)" by simp
        with prog(2) have "work_left m s1 < work_left m s" by linarith
        then show ?thesis by (simp add: p)
      next
        case empty: True
        from True have "keys \<noteq> []" by (auto simp: keys_def)
        then obtain k where k: "k \<in> set keys" by (cases keys) auto
        with empty have nd: "\<not> future_done env t k" by (auto simp: filter_empty_conv)
        from wf_futures_submit[OF wf] k have "k < length (submitted (submit_pending s))"
          unfolding wf_futures_def keys_def by (auto simp del: submit_pending_fields)
        also have "\<dots> \<le> futures_bound m (submit_pending s)" by (simp add: futures_bound_def)
        also have "\<dots> \<le> N" using bound by (simp add: submit_pending_measures)
        finally have "k < N" .
        with fair nd have "t < D" by (meson not_le)
        moreover from prog(2) have "work_left m s1 \<le> work_left m s" by simp
        ultimately show ?thesis by (auto simp: p)
      qed
      from 1(1)[OF less] wf1 prog(1) bound1
      obtain r where "while_loop env m d (Suc t) s1 = Some r" by auto
      with True Inr show ?thesis by (subst while_loop.simps) (simp add: p)
    qed
  qed
qed

lemma handle_future_step:
  assumes "handle_future env m d f s = Inr s'"
  shows "length (future_to_url s') < length (future_to_url s)
       \<and> (pending_urls s' = pending_urls s
          \<or> (\<exists>url a. pending_urls s' = pending_urls s @ [url] \<and> url_to_attempts s url = Some a
                \<and> url_to_attempts s' url = Some (a + 1) \<and> a + 1 \<le> m))"
  using assms
proof (cases rule: handle_future_cases)
  case (success url)
  with filter_key_less[OF success(1)] show ?thesis by (simp add: drop_future_def)
next
  case (requeue url msg a)
  with filter_key_less[OF requeue(1)] show ?thesis by (simp add: drop_future_def)
next
  case (failed url msg)
  with filter_key_less[OF failed(1)] show ?thesis by (simp add: drop_future_def)
qed

subsection \<open>The attempts made for one URL\<close>

lemma count_list_distinct:
  "distinct xs \<Longrightarrow> count_list xs x = (if x \<in> set xs then 1 else 0)"
  by (induction xs) auto

lemma same_key_same_url:
  assumes "distinct (map fst xs)" and "map_of xs k = Some v" and "(k, v') \<in> set xs"
  shows "v' = v"
  using assms by (metis map_of_is_SomeI option.inject)

lemma init_attempts: "url_to_attempts (init_state urls) u = (if u \<in> set urls then Some 1 else None)"
  by (simp add: init_state_def map_of_map_restrict restrict_map_def)

lemma url_progress_init:
  assumes "u \<in> set urls" and "1 \<le> m"
  shows "url_progress m u (init_state urls)"
  unfolding url_progress_def using assms by (simp add: init_attempts) (simp add: init_state_def)

lemma url_progress_submit:
  assumes "items_within urls s" and "distinct urls" and "url_progress m u s"
  shows "url_progress m u (submit_pending s)"
proof -
  from items_within_distinct[OF assms(1,2)]
  have dp: "distinct (pending_urls s)"
    and disj: "u \<in> set (pending_urls s) \<Longrightarrow> u \<notin> snd ` set (future_to_url s) \<and> u \<notin> set (failed_forever_urls s)"
    and disj2: "u \<in> snd ` set (future_to_url s) \<or> u \<in> set (failed_forever_urls s) \<Longrightarrow> u \<notin> set (pending_urls s)"
    by auto
  from assms(3) obtain a where a: "url_to_attempts s u = Some a" "1 \<le> a" "a \<le> m"
    and pos: "(u \<in> set (pending_urls s) \<and> int (count_list (submitted s) u) = a - 1)
       \<or> (u \<in> snd ` set (future_to_url s) \<and> int (count_list (submitted s) u) = a)
       \<or> (u \<in> set (failed_forever_urls s) \<and> int (count_list (submitted s) u) = m)"
    unfolding url_progress_def by blast
  have urls': "snd ` set (future_to_url (submit_pending s)) = snd ` set (future_to_url s) \<union> set (pending_urls s)"
    using submit_pending_urls[of s, THEN arg_cong, of set] by (simp only: set_map set_append)
  have cnt: "count_list (submitted (submit_pending s)) u
      = count_list (submitted s) u + (if u \<in> set (pending_urls s) then 1 else 0)"
    by (simp add: count_list_distinct[OF dp])
  from pos consider (p) "u \<in> set (pending_urls s)" "int (count_list (submitted s) u) = a - 1"
    | (f) "u \<in> snd ` set (future_to_url s)" "int (count_list (submitted s) u) = a"
    | (x) "u \<in> set (failed_forever_urls s)" "int (count_list (submitted s) u) = m"
    by blast
  then have "(u \<in> snd ` set (future_to_url (submit_pending s)) \<and> int (count_list (submitted (submit_pending s)) u) = a)
       \<or> (u \<in> set (failed_forever_urls (submit_pending s)) \<and> int (count_list (submitted (submit_pending s)) u) = m)"
  proof cases
    case p
    then show ?thesis unfolding urls' cnt by simp
  next
    case f
    with disj2 show ?thesis unfolding urls' cnt by simp
  next
    case x
    with disj2 show ?thesis unfolding urls' cnt by simp
  qed
  with a show ?thesis unfolding url_progress_def by (simp del: submit_pending_fields(2,3))
qed


lemma url_progress_handle:
  assumes wf: "wf_futures s" and iw: "items_within urls s" and du: "distinct urls"
    and fails: "\<forall>k. \<exists>msg. fst (download_image (lib env k) u d) = Inr (False, Some msg) \<and> retryable msg"
    and up: "url_progress m u s" and h: "handle_future env m d f s = Inr s'"
  shows "url_progress m u s'"
proof -
  from wf have dk: "distinct (map fst (future_to_url s))" by (simp add: wf_futures_def)
  from items_within_distinct[OF iw du]
  have disj: "u \<in> snd ` set (future_to_url s) \<Longrightarrow> u \<notin> set (pending_urls s) \<and> u \<notin> set (failed_forever_urls s)"
    by auto
  from up obtain a where a: "url_to_attempts s u = Some a" "1 \<le> a" "a \<le> m"
    and pos: "(u \<in> set (pending_urls s) \<and> int (count_list (submitted s) u) = a - 1)
       \<or> (u \<in> snd ` set (future_to_url s) \<and> int (count_list (submitted s) u) = a)
       \<or> (u \<in> set (failed_forever_urls s) \<and> int (count_list (submitted s) u) = m)"
    unfolding url_progress_def by blast
  from fails obtain msg0 where msg0: "fst (download_image (lib env f) u d) = Inr (False, Some msg0)"
    "retryable msg0" by blast
  have keep: "u \<in> snd ` set (filter (\<lambda>(f', x). f' \<noteq> f) (future_to_url s))"
    if "u \<in> snd ` set (future_to_url s)" and "map_of (future_to_url s) f = Some url" and "url \<noteq> u"
    for url
  proof -
    from that(1) obtain k where k: "(k, u) \<in> set (future_to_url s)" by auto
    have "k \<noteq> f"
    proof
      assume "k = f"
      with k same_key_same_url[OF dk that(2)] have "u = url" by blast
      with that(3) show False by simp
    qed
    with k show ?thesis by force
  qed
  from h show ?thesis
  proof (cases rule: handle_future_cases)
    case (success url)
    from success(2) msg0(1) have ne: "url \<noteq> u" by auto
    from success(3) have f: "url_to_attempts s' = url_to_attempts s" "pending_urls s' = pending_urls s"
      "failed_forever_urls s' = failed_forever_urls s" "submitted s' = submitted s"
      "future_to_url s' = filter (\<lambda>(f', x). f' \<noteq> f) (future_to_url s)"
      by (simp_all add: drop_future_def)
    from pos keep[OF _ success(1) ne] a show ?thesis unfolding url_progress_def f by blast
  next
    case (requeue url msg a')
    from requeue(6) have f: "url_to_attempts s' = (url_to_attempts s)(url \<mapsto> a' + 1)"
      "pending_urls s' = pending_urls s @ [url]"
      "failed_forever_urls s' = failed_forever_urls s" "submitted s' = submitted s"
      "future_to_url s' = filter (\<lambda>(f', x). f' \<noteq> f) (future_to_url s)"
      by (simp_all add: drop_future_def)
    show ?thesis
    proof (cases "url = u")
      case True
      from requeue(1) True have "u \<in> snd ` set (future_to_url s)"
        by (force dest: map_of_SomeD)
      with disj pos have c: "int (count_list (submitted s) u) = a" by blast
      from requeue(4) True a(1) have "a' = a" by simp
      with requeue(5) a(2) c True show ?thesis unfolding url_progress_def f by simp
    next
      case False
      from pos keep[OF _ requeue(1) False] a False show ?thesis
        unfolding url_progress_def f by auto
    qed
  next
    case (failed url msg)
    from failed(4) have f: "url_to_attempts s' = url_to_attempts s" "pending_urls s' = pending_urls s"
      "failed_forever_urls s' = failed_forever_urls s @ [url]" "submitted s' = submitted s"
      "future_to_url s' = filter (\<lambda>(f', x). f' \<noteq> f) (future_to_url s)"
      by (simp_all add: drop_future_def)
    show ?thesis
    proof (cases "url = u")
      case True
      from failed(1) True have "u \<in> snd ` set (future_to_url s)"
        by (force dest: map_of_SomeD)
      with disj pos have c: "int (count_list (submitted s) u) = a" by blast
      from failed(2) msg0 True have "retryable msg" by simp
      with failed(3) True a(1) have "\<not> a < m" by auto
      with a(3) have "a = m" by simp
      with c a True show ?thesis unfolding url_progress_def f by simp
    next
      case False
      from pos keep[OF _ failed(1) False] a show ?thesis
        unfolding url_progress_def f by auto
    qed
  qed
qed

lemma reachable_url_progress:
  assumes "reachable env m d urls t s" and "distinct urls" and "u \<in> set urls" and "1 \<le> m"
    and fails: "\<forall>k. \<exists>msg. fst (download_image (lib env k) u d) = Inr (False, Some msg) \<and> retryable msg"
  shows "(wf_futures s \<and> items_within urls s) \<and> url_progress m u s"
  using assms(1)
proof (rule reachable_preserves)
  show "(wf_futures (init_state urls) \<and> items_within urls (init_state urls)) \<and> url_progress m u (init_state urls)"
    using assms(3,4) by (simp add: wf_futures_init items_within_init url_progress_init)
next
  fix s assume "(wf_futures s \<and> items_within urls s) \<and> url_progress m u s"
  then show "(wf_futures (submit_pending s) \<and> items_within urls (submit_pending s)) \<and> url_progress m u (submit_pending s)"
    using assms(2) by (auto intro: wf_futures_submit items_within_submit url_progress_submit)
next
  fix f s s' assume a: "(wf_futures s \<and> items_within urls s) \<and> url_progress m u s"
    and h: "handle_future env m d f s = Inr s'"
  from a have a1: "wf_futures s \<and> items_within urls s" and a2: "url_progress m u s" by simp_all
  from a1 h have "wf_futures s' \<and> items_within urls s'" by (rule items_within_handle)
  moreover from a1 have "wf_futures s" and "items_within urls s" by simp_all
  then have "url_progress m u s'" using assms(2) fails a2 h by (rule url_progress_handle)
  ultimately show "(wf_futures s' \<and> items_within urls s') \<and> url_progress m u s'" ..
next
  fix s x assume "(wf_futures s \<and> items_within urls s) \<and> url_progress m u s"
  then show "(wf_futures (s\<lparr>printed := x\<rparr>) \<and> items_within urls (s\<lparr>printed := x\<rparr>)) \<and> url_progress m u (s\<lparr>printed := x\<rparr>)"
    by (simp add: wf_futures_def items_within_def url_progress_def)
qed

lemma exhausted_at_exit:
  assumes "reachable env m d urls t s" and "distinct urls" and "u \<in> set urls" and "1 \<le> m"
    and fails: "\<forall>k. \<exists>msg. fst (download_image (lib env k) u d) = Inr (False, Some msg) \<and> retryable msg"
    and "pending_urls s = []" and "future_to_url s = []"
  shows "int (count_list (submitted s) u) = m \<and> u \<in> set (failed_forever_urls s)"
proof -
  from reachable_url_progress[OF assms(1-5)] have "url_progress m u s" ..
  with assms(6,7) show ?thesis unfolding url_progress_def by auto
qed

subsection \<open>Runs that do not raise\<close>

lemma handle_future_returns:
  assumes wf: "wf_futures s" and iw: "items_within urls s"
    and dom: "set urls \<subseteq> dom (url_to_attempts s)"
    and accepts: "\<forall>k. \<forall>url \<in> set urls. \<forall>e. urlparse (lib env k) url \<noteq> Inl e"
    and key: "f \<in> fst ` set (future_to_url s)"
  shows "\<exists>s'. handle_future env m d f s = Inr s'"
proof -
  from key obtain url where url: "map_of (future_to_url s) f = Some url"
    by (metis map_of_eq_None_iff not_None_eq)
  then have "url \<in> snd ` set (future_to_url s)" by (force dest: map_of_SomeD)
  with items_within_set[OF iw] have in_urls: "url \<in> set urls" by auto
  with dom obtain a where a: "url_to_attempts s url = Some a" by auto
  from download_image_shape[of "lib env f" url d] accepts in_urls
  consider "fst (download_image (lib env f) url d) = Inr (True, None)"
    | msg where "fst (download_image (lib env f) url d) = Inr (False, Some msg)"
    by blast
  then show ?thesis
    by cases (simp_all add: handle_future_def url a drop_future_def Let_def)
qed

lemma handle_future_keys:
  "handle_future env m d f s = Inr s' \<Longrightarrow>
     future_to_url s' = filter (\<lambda>(f', x). f' \<noteq> f) (future_to_url s)"
  by (erule handle_future_cases) (simp_all add: drop_future_def)

lemma handle_future_dom:
  "handle_future env m d f s = Inr s' \<Longrightarrow> dom (url_to_attempts s) \<subseteq> dom (url_to_attempts s')"
  by (erule handle_future_cases) (auto simp: drop_future_def)

lemma drain_returns:
  assumes accepts: "\<forall>k. \<forall>url \<in> set urls. \<forall>e. urlparse (lib env k) url \<noteq> Inl e"
  shows "distinct fs \<Longrightarrow> set fs \<subseteq> fst ` set (future_to_url s) \<Longrightarrow> wf_futures s \<Longrightarrow>
     items_within urls s \<Longrightarrow> set urls \<subseteq> dom (url_to_attempts s) \<Longrightarrow>
     \<exists>s'. drain env m d fs s = Inr s'"
proof (induction fs arbitrary: s)
  case Nil
  show ?case by simp
next
  case (Cons f fs)
  from Cons.prems(2) have "f \<in> fst ` set (future_to_url s)" by simp
  from handle_future_returns[OF Cons.prems(3,4,5) accepts this]
  obtain s1 where h: "handle_future env m d f s = Inr s1" by blast
  from Cons.prems(3,4) have "wf_futures s \<and> items_within urls s" ..
  then have inv1: "wf_futures s1 \<and> items_within urls s1" using h by (rule items_within_handle)
  from handle_future_dom[OF h] Cons.prems(5) have dom1: "set urls \<subseteq> dom (url_to_attempts s1)"
    by blast
  have keys1: "set fs \<subseteq> fst ` set (future_to_url s1)"
  proof
    fix g assume g: "g \<in> set fs"
    with Cons.prems(1) have "g \<noteq> f" by auto
    moreover from g Cons.prems(2) obtain x where "(g, x) \<in> set (future_to_url s)" by auto
    ultimately show "g \<in> fst ` set (future_to_url s1)"
      unfolding handle_future_keys[OF h] by force
  qed
  from Cons.prems(1) have "distinct fs" by simp
  from Cons.IH[OF this keys1 conjunct1[OF inv1] conjunct2[OF inv1] dom1]
  obtain s' where "drain env m d fs s1 = Inr s'" by blast
  with h show ?case by simp
qed

lemma loop_body_returns:
  assumes accepts: "\<forall>k. \<forall>url \<in> set urls. \<forall>e. urlparse (lib env k) url \<noteq> Inl e"
    and wf: "wf_futures s" and iw: "items_within urls s"
    and dom: "set urls \<subseteq> dom (url_to_attempts s)"
  shows "\<exists>s'. loop_body env m d t s = Inr s'"
proof -
  define fs where "fs = filter (future_done env t) (map fst (future_to_url (submit_pending s)))"
  from wf_futures_submit[OF wf] have wf1: "wf_futures (submit_pending s)" .
  then have "distinct fs" unfolding fs_def wf_futures_def by (simp only: distinct_filter)
  moreover have "set fs \<subseteq> fst ` set (future_to_url (submit_pending s))"
    unfolding fs_def by (simp only: set_filter set_map) blast
  moreover note wf1 items_within_submit[OF iw]
  moreover from dom have "set urls \<subseteq> dom (url_to_attempts (submit_pending s))" by simp
  ultimately obtain s2 where "drain env m d fs (submit_pending s) = Inr s2"
    using drain_returns[OF accepts] by blast
  then show ?thesis unfolding fs_def by (simp add: loop_body_def Let_def)
qed

lemma reachable_dom:
  assumes "reachable env m d urls t s"
  shows "set urls \<subseteq> dom (url_to_attempts s)"
  using assms
proof (rule reachable_preserves)
  show "set urls \<subseteq> dom (url_to_attempts (init_state urls))"
    by (auto simp: init_attempts)
next
  fix f s s' assume "set urls \<subseteq> dom (url_to_attempts s)" "handle_future env m d f s = Inr s'"
  with handle_future_dom[of env m d f s s'] show "set urls \<subseteq> dom (url_to_attempts s')" by blast
qed simp_all

lemma while_loop_raises_aux:
  assumes "while_loop env0 m0 d0 t0 s0 = Some y0"
  shows "\<forall>e. y0 = Inl e \<longrightarrow> reachable env0 m0 d0 urls t0 s0 \<longrightarrow>
     (\<exists>t' s'. reachable env0 m0 d0 urls t' s' \<and> loop_body env0 m0 d0 t' s' = Inl e)"
proof (rule while_loop.raw_induct[where P = "\<lambda>env m d t s y. \<forall>e. y = Inl e \<longrightarrow> reachable env m d urls t s \<longrightarrow>
     (\<exists>t' s'. reachable env m d urls t' s' \<and> loop_body env m d t' s' = Inl e)", OF _ assms])
  fix wl env m d t s y
  assume IH: "\<And>env m d t s y. wl env m d t s = Some y \<Longrightarrow> \<forall>e. y = Inl e \<longrightarrow> reachable env m d urls t s \<longrightarrow>
     (\<exists>t' s'. reachable env m d urls t' s' \<and> loop_body env m d t' s' = Inl e)"
    and eq: "(if pending_urls s \<noteq> [] \<or> future_to_url s \<noteq> [] then
                 (case loop_body env m d t s of Inl e \<Rightarrow> Some (Inl e)
                  | Inr s' \<Rightarrow> wl env m d (Suc t) s')
               else Some (Inr s)) = Some y"
  show "\<forall>e. y = Inl e \<longrightarrow> reachable env m d urls t s \<longrightarrow>
     (\<exists>t' s'. reachable env m d urls t' s' \<and> loop_body env m d t' s' = Inl e)"
  proof (cases "pending_urls s \<noteq> [] \<or> future_to_url s \<noteq> []")
    case False
    with eq show ?thesis by auto
  next
    case True
    show ?thesis
    proof (cases "loop_body env m d t s")
      case (Inl e)
      with True eq show ?thesis by auto
    next
      case (Inr s1)
      with True eq have "wl env m d (Suc t) s1 = Some y" by simp
      from IH[OF this] reachable.pass[OF _ True Inr] show ?thesis by blast
    qed
  qed
qed

lemma fair_run_ends:
  assumes "\<forall>k. \<exists>T. \<forall>t\<ge>T. future_done env t k"
  shows "\<exists>r. run env m w d urls = Some r"
proof -
  define N where "N = futures_bound m (init_state urls)"
  from eventually_all_done[OF assms, of N]
  obtain D where D: "\<forall>k<N. \<forall>t\<ge>D. future_done env t k" by blast
  have "finite (dom (url_to_attempts (init_state urls)))"
    by (simp add: init_state_def finite_dom_map_of)
  with while_loop_terminates[OF D, of "(init_state urls, 0)" m d] wf_futures_init[of urls]
  show ?thesis by (simp add: run_def N_def split: sum.splits)
qed

lemma run_returns:
  assumes "\<forall>k. \<exists>T. \<forall>t\<ge>T. future_done env t k"
    and accepts: "\<forall>k. \<forall>url \<in> set urls. \<forall>e. urlparse (lib env k) url \<noteq> Inl e"
    and workers: "0 < w"
  shows "\<exists>s'. run env m w d urls = Some (Inr s')"
proof -
  from fair_run_ends[OF assms(1)] obtain r where r: "run env m w d urls = Some r" by blast
  show ?thesis
  proof (cases r)
    case (Inr s')
    with r show ?thesis by blast
  next
    case (Inl e)
    from r workers have "while_loop env m d 0 (init_state urls) = Some r"
      by (simp add: run_def new_pool_def)
    from while_loop_raises_aux[OF this, of urls] Inl reachable.start[of env m d urls]
    obtain t' s' where re: "reachable env m d urls t' s'" and lb: "loop_body env m d t' s' = Inl e"
      by blast
    from reachable_items[OF re] reachable_dom[OF re] loop_body_returns[OF accepts, of s' m d t']
    obtain s2 where "loop_body env m d t' s' = Inr s2" by blast
    with lb show ?thesis by simp
  qed
qed

text \<open>
  The exhaustion law for the reasons that the loop's own test accepts: with a duplicate-free
  input list and \<open>max_attempts \<ge> 1\<close>, a URL whose every attempt returns an error string on
  which \<open>retryable\<close> holds is submitted exactly \<open>max_attempts\<close> times and then recorded as
  failed, whenever the run returns; and the run returns when the executor can be created,
  every future is eventually done and \<^verbatim>\<open>urlparse\<close> accepts every input URL.
\<close>

lemma exhaustion_law:
  assumes "distinct urls" and "u \<in> set urls" and "1 \<le> m"
    and "\<forall>k. \<exists>msg. fst (download_image (lib env k) u d) = Inr (False, Some msg) \<and> retryable msg"
  shows "(run env m w d urls = Some (Inr s) \<longrightarrow>
            int (count_list (submitted s) u) = m \<and> u \<in> set (failed_forever_urls s))
       \<and> (0 < w \<and> (\<forall>k. \<exists>T. \<forall>t\<ge>T. future_done env t k)
            \<and> (\<forall>k. \<forall>url \<in> set urls. \<forall>e. urlparse (lib env k) url \<noteq> Inl e) \<longrightarrow>
          (\<exists>s'. run env m w d urls = Some (Inr s')
             \<and> int (count_list (submitted s') u) = m \<and> u \<in> set (failed_forever_urls s')))"
proof -
  have exit: "int (count_list (submitted s') u) = m \<and> u \<in> set (failed_forever_urls s')"
    if "run env m w d urls = Some (Inr s')" for s'
  proof -
    from run_reachable[OF that] obtain t' where "reachable env m d urls t' s'"
      and "pending_urls s' = []" and "future_to_url s' = []" by blast
    then show ?thesis using assms by (intro exhausted_at_exit)
  qed
  show ?thesis
  proof (rule conjI)
    show "run env m w d urls = Some (Inr s) \<longrightarrow>
            int (count_list (submitted s) u) = m \<and> u \<in> set (failed_forever_urls s)"
      using exit[of s] by blast
    show "0 < w \<and> (\<forall>k. \<exists>T. \<forall>t\<ge>T. future_done env t k)
            \<and> (\<forall>k. \<forall>url \<in> set urls. \<forall>e. urlparse (lib env k) url \<noteq> Inl e) \<longrightarrow>
          (\<exists>s'. run env m w d urls = Some (Inr s')
             \<and> int (count_list (submitted s') u) = m \<and> u \<in> set (failed_forever_urls s'))"
    proof (rule impI)
      assume "0 < w \<and> (\<forall>k. \<exists>T. \<forall>t\<ge>T. future_done env t k)
            \<and> (\<forall>k. \<forall>url \<in> set urls. \<forall>e. urlparse (lib env k) url \<noteq> Inl e)"
      then obtain s' where "run env m w d urls = Some (Inr s')"
        using run_returns[of env urls w m d] by blast
      with exit show "\<exists>s'. run env m w d urls = Some (Inr s')
             \<and> int (count_list (submitted s') u) = m \<and> u \<in> set (failed_forever_urls s')"
        by blast
    qed
  qed
qed

subsection \<open>The executor\<close>

lemma new_pool_ok:
  assumes "new_pool w = Inr p"
  shows "pool_ok p" and "pool_max_workers p = w"
    and "work_queue p = []" and "running p = []" and "finished p = []"
  using assms by (auto simp: new_pool_def pool_ok_def split: if_splits)

lemma pool_step_max_workers: "pool_max_workers (pool_step ev p) = pool_max_workers p"
  by (cases ev) (simp_all add: Let_def split: list.split)

lemma pool_step_ok:
  assumes "pool_ok p"
  shows "pool_ok (pool_step ev p)"
proof (cases ev)
  case (Submit k)
  with assms show ?thesis by (simp add: pool_ok_def Let_def)
next
  case Take
  with assms show ?thesis by (simp add: pool_ok_def split: list.split)
next
  case (Finish k)
  with assms show ?thesis by (auto simp: pool_ok_def length_remove1)
qed

lemma pool_steps_ok: "pool_ok p \<Longrightarrow> pool_ok (fold pool_step evs p)"
  by (induction evs arbitrary: p) (simp_all add: pool_step_ok)

lemma pool_steps_max_workers: "pool_max_workers (fold pool_step evs p) = pool_max_workers p"
  by (induction evs arbitrary: p) (simp_all add: pool_step_max_workers)

lemma pool_ok_bound: "pool_ok p \<Longrightarrow> int (length (running p)) \<le> pool_max_workers p"
  by (simp add: pool_ok_def)

lemma worker_step_items:
  assumes "ev = Take \<or> ev = Finish k"
  shows "length (work_queue (pool_step ev p)) + length (running (pool_step ev p))
           + length (finished (pool_step ev p))
         = length (work_queue p) + length (running p) + length (finished p)"
proof -
  have "length (remove1 k (running p)) + 1 = length (running p)" if "k \<in> set (running p)"
    using that length_pos_if_in_set[OF that] by (simp add: length_remove1)
  with assms show ?thesis by (auto split: list.split)
qed

lemma submit_step_items:
  "length (work_queue (pool_step (Submit k) p)) + length (running (pool_step (Submit k) p))
           + length (finished (pool_step (Submit k) p))
         = Suc (length (work_queue p) + length (running p) + length (finished p))"
  by (simp add: Let_def)

lemma submit_steps_items:
  "length (work_queue (fold pool_step (map Submit ks) p))
     + length (running (fold pool_step (map Submit ks) p))
     + length (finished (fold pool_step (map Submit ks) p))
   = length (work_queue p) + length (running p) + length (finished p) + length ks"
proof (induction ks arbitrary: p)
  case Nil
  show ?case by simp
next
  case (Cons k ks)
  from Cons.IH[of "pool_step (Submit k) p"] submit_step_items[of k p] show ?case
    by (simp del: pool_step.simps)
qed

lemma handle_future_submitted: "handle_future env m d f s = Inr s' \<Longrightarrow> submitted s' = submitted s"
  by (erule handle_future_cases) (simp_all add: drop_future_def)

lemma loop_body_submitted:
  assumes "loop_body env m d t s = Inr s'"
  shows "submitted s' = submitted s @ pending_urls s"
proof -
  from assms obtain s2 where d: "drain env m d (filter (future_done env t) (map fst (future_to_url (submit_pending s)))) (submit_pending s) = Inr s2"
    and s': "s' = s2\<lparr>printed := printed s2 @
                    [(success_count s2, total_urls s2, remaining_urls s2, fail_count s2)]\<rparr>"
    by (rule loop_body_Inr)
  have "submitted (submit_pending s) = submitted s @ pending_urls s" by simp
  with d have "submitted s2 = submitted s @ pending_urls s"
    by (rule drain_preserves) (simp add: handle_future_submitted)
  with s' show ?thesis by simp
qed

lemma executor_state_reachable:
  "executor_state env m w d urls t s p \<Longrightarrow> reachable env m d urls t s"
  by (induction rule: executor_state.induct) (auto intro: reachable.intros)

lemma executor_state_ok:
  assumes "executor_state env m w d urls t s p"
  shows "pool_ok p \<and> pool_max_workers p = w
       \<and> length (work_queue p) + length (running p) + length (finished p) = length (submitted s)"
  using assms
proof (induction rule: executor_state.induct)
  case (created p)
  then show ?case by (simp add: new_pool_ok init_state_def)
next
  case (took t s p)
  with worker_step_items[of Take _ p] show ?case
    by (simp add: pool_step_ok pool_step_max_workers del: pool_step.simps)
next
  case (finished_one t s p k)
  with worker_step_items[of "Finish k" k p] show ?case
    by (simp add: pool_step_ok pool_step_max_workers del: pool_step.simps)
next
  case (passed t s p s')
  with submit_steps_items[of "[length (submitted s) ..< length (submitted s) + length (pending_urls s)]" p]
    loop_body_submitted[OF passed(3)]
  show ?case
    by (simp add: pool_steps_ok pool_steps_max_workers submit_events_def)
qed

lemma loop_body_three:
  "loop_body (slow_env (completed png 200 [])) 5 [''out''] 0 (init_state [''a'', ''b'', ''c''])
     = Inr three_in_flight"
  apply (simp add: loop_body_def init_state_def slow_env_def)
  apply (simp add: three_in_flight_def)
  done

lemma executor_three:
  "executor_state (slow_env (completed png 200 [])) 5 2 [''out''] [''a'', ''b'', ''c''] (Suc 0)
     three_in_flight two_running"
proof -
  let ?E = "slow_env (completed png 200 [])"
  let ?p0 = "\<lparr>pool_max_workers = 2, threads = 0, idle_semaphore = 0,
                work_queue = [], running = [], finished = []\<rparr>"
  have "new_pool 2 = Inr ?p0" by (simp add: new_pool_def)
  then have c: "executor_state ?E 5 2 [''out''] [''a'', ''b'', ''c''] 0 (init_state [''a'', ''b'', ''c'']) ?p0"
    by (rule executor_state.created)
  have "pending_urls (init_state [''a'', ''b'', ''c'']) \<noteq> []
      \<or> future_to_url (init_state [''a'', ''b'', ''c'']) \<noteq> []"
    by (simp add: init_state_def)
  from executor_state.passed[OF c this loop_body_three]
  have "executor_state ?E 5 2 [''out''] [''a'', ''b'', ''c''] (Suc 0) three_in_flight
      (fold pool_step (submit_events (init_state [''a'', ''b'', ''c''])) ?p0)" .
  then have "executor_state ?E 5 2 [''out''] [''a'', ''b'', ''c''] (Suc 0) three_in_flight
      (pool_step Take (pool_step Take (fold pool_step (submit_events (init_state [''a'', ''b'', ''c''])) ?p0)))"
    by (intro executor_state.took)
  moreover have "pool_step Take (pool_step Take (fold pool_step (submit_events (init_state [''a'', ''b'', ''c''])) ?p0))
      = two_running"
    by (simp add: submit_events_def init_state_def two_running_def Let_def upt_rec)
  ultimately show ?thesis by simp
qed

subsection \<open>Status codes as strings\<close>

lemma digit_cases:
  assumes "a < 10"
  shows "CHR ''5'' = ''0123456789'' ! a \<longleftrightarrow> a = 5"
    and "CHR ''4'' = ''0123456789'' ! a \<longleftrightarrow> a = 4"
    and "CHR ''0'' = ''0123456789'' ! a \<longleftrightarrow> a = 0"
    and "CHR ''8'' = ''0123456789'' ! a \<longleftrightarrow> a = 8"
    and "CHR ''2'' = ''0123456789'' ! a \<longleftrightarrow> a = 2"
    and "CHR ''9'' = ''0123456789'' ! a \<longleftrightarrow> a = 9"
proof -
  from assms have "a \<in> {0, 1, 2, 3, 4, 5, 6, 7, 8, 9}" by auto
  then show "CHR ''5'' = ''0123456789'' ! a \<longleftrightarrow> a = 5"
    and "CHR ''4'' = ''0123456789'' ! a \<longleftrightarrow> a = 4"
    and "CHR ''0'' = ''0123456789'' ! a \<longleftrightarrow> a = 0"
    and "CHR ''8'' = ''0123456789'' ! a \<longleftrightarrow> a = 8"
    and "CHR ''2'' = ''0123456789'' ! a \<longleftrightarrow> a = 2"
    and "CHR ''9'' = ''0123456789'' ! a \<longleftrightarrow> a = 9"
    by auto
qed

lemma str_nat_3: 
  assumes "100 \<le> n" "n \<le> 999"
  shows "str_nat n = [''0123456789'' ! (n div 100), ''0123456789'' ! (n div 10 mod 10), ''0123456789'' ! (n mod 10)]"
proof -
  have a: "str_nat n = str_nat (n div 10) @ [''0123456789'' ! (n mod 10)]"
    using assms by (subst str_nat.simps) simp
  have b: "str_nat (n div 10) = str_nat (n div 10 div 10) @ [''0123456789'' ! (n div 10 mod 10)]"
    using assms by (subst str_nat.simps) simp
  have c: "str_nat (n div 10 div 10) = [''0123456789'' ! (n div 10 div 10)]"
    using assms by (subst str_nat.simps) simp
  have "n div 10 div 10 = n div 100" by (simp add: div_mult2_eq[symmetric])
  with a b c show ?thesis by simp
qed

lemma status_digits:
  fixes n :: nat
  assumes "100 \<le> n" "n \<le> 999"
  shows "(n div 100 = 5 \<or> (n div 100 = 4 \<and> n div 10 mod 10 = 0 \<and> n mod 10 = 8) \<or> (n div 100 = 4 \<and> n div 10 mod 10 = 2 \<and> n mod 10 = 9))
     \<longleftrightarrow> (500 \<le> n \<and> n \<le> 599) \<or> n = 408 \<or> n = 429"
proof -
  define x y z where "x = n div 100" and "y = n div 10 mod 10" and "z = n mod 10"
  have "n div 10 = 10 * (n div 10 div 10) + n div 10 mod 10" by simp
  moreover have "n div 10 div 10 = n div 100" by (simp add: div_mult2_eq[symmetric])
  moreover have "n = 10 * (n div 10) + n mod 10" by simp
  ultimately have n: "n = 100 * x + 10 * y + z" unfolding x_def y_def z_def by linarith
  have lt: "y < 10" "z < 10" by (simp_all add: y_def z_def)
  have "(x = 5 \<or> (x = 4 \<and> y = 0 \<and> z = 8) \<or> (x = 4 \<and> y = 2 \<and> z = 9))
     \<longleftrightarrow> (500 \<le> n \<and> n \<le> 599) \<or> n = 408 \<or> n = 429"
  proof -
    have a: "x = 4 \<and> y = 0 \<and> z = 8" if "n = 408"
    proof -
      from that n lt have "x = 4" by linarith
      moreover from this that n lt have "y = 0" by linarith
      moreover from calculation that n have "z = 8" by linarith
      ultimately show ?thesis by simp
    qed
    have b: "x = 4 \<and> y = 2 \<and> z = 9" if "n = 429"
    proof -
      from that n lt have "x = 4" by linarith
      moreover from this that n lt have "y = 2" by linarith
      moreover from calculation that n have "z = 9" by linarith
      ultimately show ?thesis by simp
    qed
    have c: "x = 5" if "500 \<le> n" "n \<le> 599" using that n lt by linarith
    have d: "500 \<le> n \<and> n \<le> 599" if "x = 5" using that n lt by linarith
    have e: "n = 408" if "x = 4" "y = 0" "z = 8" using that n by linarith
    have f: "n = 429" if "x = 4" "y = 2" "z = 9" using that n by linarith
    from a b c d e f show ?thesis by blast
  qed
  then show ?thesis unfolding x_def y_def z_def .
qed

lemma retryable_status:
  assumes "100 \<le> c" "c \<le> 999"
  shows "retryable (reported (HttpStatus c)) \<longleftrightarrow> spec_retryable (HttpStatus c)"
proof -
  define n where "n = nat c"
  have n: "100 \<le> n" "n \<le> 999" "c = int n" using assms by (simp_all add: n_def)
  define x y z where "x = n div 100" and "y = n div 10 mod 10" and "z = n mod 10"
  have s: "str_int c = [''0123456789'' ! x, ''0123456789'' ! y, ''0123456789'' ! z]"
    using n str_nat_3[OF n(1,2)] by (simp add: str_int_def x_def y_def z_def)
  have lt: "x < 10" "y < 10" "z < 10" using n by (simp_all add: x_def y_def z_def)
  have "retryable (reported (HttpStatus c)) \<longleftrightarrow> x = 5 \<or> (x = 4 \<and> y = 0 \<and> z = 8) \<or> (x = 4 \<and> y = 2 \<and> z = 9)"
    by (simp add: retryable_def startswith_def s digit_cases[OF lt(1)] digit_cases[OF lt(2)] digit_cases[OF lt(3)])
  also have "\<dots> \<longleftrightarrow> (500 \<le> n \<and> n \<le> 599) \<or> n = 408 \<or> n = 429"
    unfolding x_def y_def z_def using n(1,2) by (rule status_digits)
  also have "\<dots> \<longleftrightarrow> spec_retryable (HttpStatus c)" using n(3) by auto
  finally show ?thesis .
qed

subsection \<open>A run on one URL that answers 404\<close>

lemma loop_body_404:
  "loop_body (prompt_env (completed png 404 [])) 5 [''out''] 0 (init_state [''https://example.com/a.png''])
     = Inr one_failed"
  by (simp add: loop_body_def init_state_def prompt_env_def completed_def handle_future_def
      download_image_def drop_future_def retryable_def startswith_def str_int_def str_nat.simps
      one_failed_def)

lemma reachable_404:
  "reachable (prompt_env (completed png 404 [])) 5 [''out''] [''https://example.com/a.png'']
     (Suc 0) one_failed"
  by (rule reachable.pass[OF reachable.start _ loop_body_404]) (simp add: init_state_def)

lemma run_404:
  "run (prompt_env (completed png 404 [])) 5 8 [''out''] [''https://example.com/a.png'']
     = Some (Inr one_failed)"
  unfolding run_def
  apply (simp add: new_pool_def)
  apply (subst while_loop.simps)
  apply (simp add: loop_body_404)
  apply (simp add: init_state_def)
  apply (subst while_loop.simps)
  apply (simp add: one_failed_def)
  done

section \<open>The claims\<close>

text \<open>
  C1. Claim: a failure is requeued (while attempts remain) exactly when its reason is a
  transport error, an HTTP 5xx status, 408 or 429. The loop decides by the prefix of the
  error string, and \<^verbatim>\<open>not error.startswith("HTTP")\<close> takes every message that starts with
  \<^verbatim>\<open>HTTP\<close> for an HTTP status. The message of the exception \<^verbatim>\<open>requests\<close> raises on a
  refused or timed-out connection starts with \<^verbatim>\<open>HTTPSConnectionPool\<close>: such a transport
  failure is retryable for the spec, is not requeued by the code, and with five attempts
  allowed the URL is submitted once and recorded as failed for good.
\<close>

theorem pool_timeout_not_requeued:
  "spec_retryable (Transport pool_message)
   \<and> \<not> retryable (reported (Transport pool_message))
   \<and> map_option (map_sum id (\<lambda>s. (failed_forever_urls s, submitted s)))
        (run (prompt_env (get_raises png pool_message)) 5 8 [''out''] [''https://example.com/a.png''])
      = Some (Inr ([''https://example.com/a.png''], [''https://example.com/a.png'']))"
proof (intro conjI)
  show "spec_retryable (Transport pool_message)" by simp
  show "\<not> retryable (reported (Transport pool_message))"
    by (simp add: retryable_def startswith_def pool_message_def)
  show "map_option (map_sum id (\<lambda>s. (failed_forever_urls s, submitted s)))
        (run (prompt_env (get_raises png pool_message)) 5 8 [''out''] [''https://example.com/a.png''])
      = Some (Inr ([''https://example.com/a.png''], [''https://example.com/a.png'']))"
    by code_simp
qed

text \<open>
  C2. Claim: \<^verbatim>\<open>download_image\<close> never lets an exception through. \<^verbatim>\<open>urlparse(url)\<close> runs before
  the \<^verbatim>\<open>try\<close>; for \<^verbatim>\<open>http://[\<close> it raises \<^verbatim>\<open>ValueError("Invalid IPv6 URL")\<close>, the call
  raises it to its caller, and \<^verbatim>\<open>future.result()\<close> raises it in the control loop, which
  ends the run.
\<close>

theorem urlparse_error_escapes:
  "download_image (urlparse_raises ''Invalid IPv6 URL'') ''http://['' [''out'']
     = (Inl (LibraryError ''Invalid IPv6 URL''), [])
   \<and> inner_download_images (prompt_env (urlparse_raises ''Invalid IPv6 URL'')) 5 8 [''out'']
        [''http://['']
     = Some (Inl (LibraryError ''Invalid IPv6 URL''))"
proof
  show "download_image (urlparse_raises ''Invalid IPv6 URL'') ''http://['' [''out'']
     = (Inl (LibraryError ''Invalid IPv6 URL''), [])"
    by (simp add: download_image_def urlparse_raises_def)
  show "inner_download_images (prompt_env (urlparse_raises ''Invalid IPv6 URL'')) 5 8 [''out'']
        [''http://['']
     = Some (Inl (LibraryError ''Invalid IPv6 URL''))"
    by code_simp
qed

text \<open>
  C3. Claim: with \<open>max_attempts \<ge> 1\<close>, a URL whose every fetch attempt fails with a
  retryable reason is dispatched exactly \<open>max_attempts\<close> times and then recorded in the
  permanent-failure list. A transport error is a retryable reason (section 4.2 of the
  spec), and every attempt that ends in the connection-pool timeout of C1 fails with one;
  yet with \<open>max_attempts = 3\<close> the URL is submitted once, not three times, before it is
  recorded as failed. This is the defect of C1: the prefix test of lines 80-85 does not
  accept this reason. For the reasons the test does accept, the law holds (lemma
  \<open>exhaustion_law\<close>).
\<close>

theorem pool_timeout_single_attempt:
  "download_image (get_raises png pool_message) ''https://example.com/a.png'' [''out'']
     = (Inr (False, Some pool_message), [])
   \<and> spec_retryable (Transport pool_message)
   \<and> map_option
        (map_sum id (\<lambda>s. (int (count_list (submitted s) ''https://example.com/a.png''),
                           failed_forever_urls s)))
        (run (prompt_env (get_raises png pool_message)) 3 8 [''out''] [''https://example.com/a.png''])
      = Some (Inr (1, [''https://example.com/a.png'']))"
proof (intro conjI)
  show "download_image (get_raises png pool_message) ''https://example.com/a.png'' [''out'']
     = (Inr (False, Some pool_message), [])"
    by (simp add: download_image_def get_raises_def)
  show "spec_retryable (Transport pool_message)" by simp
  show "map_option
        (map_sum id (\<lambda>s. (int (count_list (submitted s) ''https://example.com/a.png''),
                           failed_forever_urls s)))
        (run (prompt_env (get_raises png pool_message)) 3 8 [''out''] [''https://example.com/a.png''])
      = Some (Inr (1, [''https://example.com/a.png'']))"
    by code_simp
qed

text \<open>
  C4. Claim: at every point where a progress line has been printed,
  \<open>succeeded + permanently_failed + remaining = total\<close> and \<open>remaining \<ge> 0\<close>, and when the
  loop is left \<open>succeeded + permanently_failed = total\<close>. Proved for every state at the
  head of the loop, for every line printed so far, and for the state in which the run
  returns.
\<close>

theorem counters_invariant:
  "(reachable env m d urls t s \<longrightarrow>
      success_count s + fail_count s + remaining_urls s = total_urls s
      \<and> 0 \<le> remaining_urls s
      \<and> success_count s + fail_count s \<le> total_urls s
      \<and> total_urls s = int (length urls)
      \<and> (\<forall>(sc, tot, rem, fc) \<in> set (printed s). sc + fc + rem = tot \<and> 0 \<le> rem))
   \<and> (run env m w d urls = Some (Inr s') \<longrightarrow>
      success_count s' + fail_count s' = total_urls s' \<and> total_urls s' = int (length urls))"
proof (intro conjI impI)
  assume r: "reachable env m d urls t s"
  from reachable_counters[OF r]
  show "success_count s + fail_count s + remaining_urls s = total_urls s"
    and "0 \<le> remaining_urls s"
    and "success_count s + fail_count s \<le> total_urls s"
    and "\<forall>(sc, tot, rem, fc) \<in> set (printed s). sc + fc + rem = tot \<and> 0 \<le> rem"
    by (simp_all add: counters_ok_def)
  from reachable_total[OF r] show "total_urls s = int (length urls)" .
next
  assume "run env m w d urls = Some (Inr s')"
  from run_reachable[OF this] obtain t' where r: "reachable env m d urls t' s'"
    and e: "pending_urls s' = []" "future_to_url s' = []" by blast
  from reachable_counters[OF r] e show "success_count s' + fail_count s' = total_urls s'"
    by (simp add: counters_ok_def)
  from reachable_total[OF r] show "total_urls s' = int (length urls)" .
qed

theorem counters_invariant_witness:
  "reachable (prompt_env (completed png 404 [])) 5 [''out''] [''https://example.com/a.png'']
     (Suc 0) one_failed
   \<and> success_count one_failed + fail_count one_failed + remaining_urls one_failed
       = total_urls one_failed
   \<and> 0 \<le> remaining_urls one_failed
   \<and> printed one_failed = [(0, 1, 0, 1)]
   \<and> run (prompt_env (completed png 404 [])) 5 8 [''out''] [''https://example.com/a.png'']
       = Some (Inr one_failed)
   \<and> success_count one_failed + fail_count one_failed = total_urls one_failed"
  using counters_invariant[of "prompt_env (completed png 404 [])" 5 "[''out'']"
      "[''https://example.com/a.png'']" "Suc 0" one_failed 8 one_failed]
    reachable_404 run_404
  by (simp add: one_failed_def)

text \<open>
  C5. Claim: a pending item is dispatched only while fewer than \<open>max_concurrency\<close> fetches
  are in flight. The inner loop \<^verbatim>\<open>while pending_urls\<close> has no such test: with three URLs and
  \<^verbatim>\<open>max_workers = 2\<close> the first pass leaves three futures in \<^verbatim>\<open>future_to_url\<close>.
\<close>

theorem dispatch_exceeds_max_workers:
  "\<not> within_concurrency 2 (submit_pending (init_state [''a'', ''b'', ''c'']))"
  by (simp add: within_concurrency_def init_state_def)

text \<open>
  C5, amended: each pass submits every pending URL to the executor, whatever the number of
  futures not yet drained: afterwards the queue of the control loop is empty and the
  dictionary of futures has grown by the whole queue, so the number of fetches dispatched
  and not yet drained is not bounded by \<^verbatim>\<open>max_workers\<close>. Every submitted fetch is in the
  executor, waiting in its queue, running or finished, and the executor, created with
  \<^verbatim>\<open>max_workers\<close>, runs a fetch only on one of its at most \<^verbatim>\<open>max_workers\<close> threads: in
  every state the executor has during a run, and after any further submissions and worker
  events, at most \<^verbatim>\<open>max_workers\<close> fetches are running.
\<close>

theorem pool_bounds_running:
  assumes "executor_state env m w d urls t s p"
  shows "pending_urls (submit_pending s) = []
       \<and> length (future_to_url (submit_pending s))
           = length (future_to_url s) + length (pending_urls s)
       \<and> submitted (submit_pending s) = submitted s @ pending_urls s
       \<and> length (work_queue p) + length (running p) + length (finished p) = length (submitted s)
       \<and> (\<forall>evs. int (length (running (fold pool_step evs p))) \<le> w)"
proof (intro conjI allI)
  show "pending_urls (submit_pending s) = []" by simp
  show "length (future_to_url (submit_pending s))
           = length (future_to_url s) + length (pending_urls s)" by simp
  show "submitted (submit_pending s) = submitted s @ pending_urls s" by simp
  from executor_state_ok[OF assms]
  show "length (work_queue p) + length (running p) + length (finished p) = length (submitted s)"
    by simp
  fix evs
  from executor_state_ok[OF assms] have "pool_ok p" and w: "pool_max_workers p = w" by simp_all
  from pool_ok_bound[OF pool_steps_ok[OF this(1), of evs]] w
  show "int (length (running (fold pool_step evs p))) \<le> w"
    by (simp add: pool_steps_max_workers)
qed

theorem pool_bounds_running_witness:
  "executor_state (slow_env (completed png 200 [])) 5 2 [''out''] [''a'', ''b'', ''c''] (Suc 0)
     three_in_flight two_running
   \<and> length (future_to_url three_in_flight) = 3
   \<and> length (work_queue two_running) + length (running two_running)
       + length (finished two_running) = length (submitted three_in_flight)
   \<and> running two_running = [0, 1]
   \<and> pool_step Take two_running = two_running
   \<and> int (length (running (fold pool_step [Take, Finish 0, Take] two_running))) \<le> 2"
  using pool_bounds_running[OF executor_three] executor_three
  by (simp add: three_in_flight_def two_running_def)



text \<open>
  C7. Claim: when the path yields no name, the file is named \<open>{host}.html\<close> with the URL's
  host name. The code takes \<^verbatim>\<open>parsed_url.netloc\<close>, which keeps the port (and any user
  information): for \<^verbatim>\<open>http://example.com:8080/\<close> the file written is
  \<^verbatim>\<open>example.com:8080.html\<close>, while the host name is \<^verbatim>\<open>example.com\<close>.
\<close>

theorem fallback_name_keeps_port:
  "download_image (completed port_home 200 ''<html>'') ''http://example.com:8080/'' [''out'']
     = (Inr (True, None), [([''out'', ''example.com:8080.html''], ''<html>'')])
   \<and> host_name (netloc port_home) = ''example.com''"
  by (simp add: download_image_def completed_def filename_of_def path_name_def host_name_def
      port_home_def)

text \<open>
  C8. Claim: every completed exchange with a 2xx status yields Success. The code tests
  \<^verbatim>\<open>response.status_code == 200\<close>: a completed exchange with status 204 is reported as the
  failure \<^verbatim>\<open>HTTP 204\<close>.
\<close>

theorem status_204_is_failure:
  "requests_get (completed png 204 []) ''https://example.com/a.png''
     = Inr \<lparr>status_code = 204, content = []\<rparr>
   \<and> download_image (completed png 204 []) ''https://example.com/a.png'' [''out'']
     = (Inr (False, Some ''HTTP 204''), [])"
  by (simp add: download_image_def completed_def str_int_def str_nat.simps)

text \<open>
  C8, amended: a completed exchange with any status other than 200 yields the failure
  \<^verbatim>\<open>HTTP <status>\<close> and writes nothing; a completed exchange with status 200 whose payload is
  written without error yields Success and writes that one file; when the write raises, the
  result is a failure carrying the message of that exception.
\<close>

theorem download_image_status:
  assumes "urlparse L url = Inr parsed" and "requests_get L url = Inr r"
  shows "(status_code r \<noteq> 200 \<longrightarrow>
            download_image L url d = (Inr (False, Some (''HTTP '' @ str_int (status_code r))), []))
       \<and> (status_code r = 200 \<and> write_bytes L (d @ [filename_of parsed]) (content r) = None \<longrightarrow>
            download_image L url d = (Inr (True, None), [(d @ [filename_of parsed], content r)]))
       \<and> (\<forall>e. status_code r = 200 \<and> write_bytes L (d @ [filename_of parsed]) (content r) = Some e \<longrightarrow>
            download_image L url d = (Inr (False, Some e), []))"
  using assms by (simp add: download_image_def)

theorem download_image_status_witness:
  "urlparse (completed png 200 ''data'') ''https://example.com/a.png'' = Inr png
   \<and> requests_get (completed png 200 ''data'') ''https://example.com/a.png''
       = Inr \<lparr>status_code = 200, content = ''data''\<rparr>
   \<and> write_bytes (completed png 200 ''data'') [''out'', ''a.png''] ''data'' = None
   \<and> download_image (completed png 200 ''data'') ''https://example.com/a.png'' [''out'']
       = (Inr (True, None), [([''out'', ''a.png''], ''data'')])
   \<and> urlparse (completed png 503 []) ''https://example.com/a.png'' = Inr png
   \<and> requests_get (completed png 503 []) ''https://example.com/a.png''
       = Inr \<lparr>status_code = 503, content = []\<rparr>
   \<and> download_image (completed png 503 []) ''https://example.com/a.png'' [''out'']
       = (Inr (False, Some ''HTTP 503''), [])"
proof -
  have u: "urlparse (completed png c b) ''https://example.com/a.png'' = Inr png" for c b
    by (simp add: completed_def)
  have g: "requests_get (completed png c b) ''https://example.com/a.png''
       = Inr \<lparr>status_code = c, content = b\<rparr>" for c b
    by (simp add: completed_def)
  have f: "filename_of png = ''a.png''" by (simp add: filename_of_def png_def path_name_def)
  have w: "write_bytes (completed png 200 ''data'') [''out'', ''a.png''] ''data'' = None"
    by (simp add: completed_def)
  from download_image_status[OF u g, of 200 "''data''" "[''out'']"]
       download_image_status[OF u g, of 503 "[]" "[''out'']"] u g f w
  show ?thesis by (simp add: str_int_def str_nat.simps)
qed

text \<open>
  C9. Claim: if every dispatched fetch eventually completes, the dispatch-and-drain loop
  terminates; each drained item leaves the in-flight set and is either finished or requeued
  with an attempt count one higher and at most \<open>max_attempts\<close>. Proved: when every future is
  done from some poll on, the run returns a result (a failure list, or the exception a call
  raised), for any input list and any \<open>max_attempts\<close>.
\<close>

theorem run_terminates:
  assumes "\<forall>k. \<exists>T. \<forall>t\<ge>T. future_done env t k"
  shows "(\<exists>r. inner_download_images env m w d urls = Some r)
       \<and> (\<forall>f s s'. handle_future env m d f s = Inr s' \<longrightarrow>
            length (future_to_url s') < length (future_to_url s)
            \<and> (pending_urls s' = pending_urls s
               \<or> (\<exists>url a. pending_urls s' = pending_urls s @ [url]
                     \<and> url_to_attempts s url = Some a
                     \<and> url_to_attempts s' url = Some (a + 1) \<and> a + 1 \<le> m)))"
proof
  from fair_run_ends[OF assms, of m w d urls]
  show "\<exists>r. inner_download_images env m w d urls = Some r"
    by (auto simp: inner_download_images_def)
  show "\<forall>f s s'. handle_future env m d f s = Inr s' \<longrightarrow>
            length (future_to_url s') < length (future_to_url s)
            \<and> (pending_urls s' = pending_urls s
               \<or> (\<exists>url a. pending_urls s' = pending_urls s @ [url]
                     \<and> url_to_attempts s url = Some a
                     \<and> url_to_attempts s' url = Some (a + 1) \<and> a + 1 \<le> m))"
    by (intro allI impI) (rule handle_future_step)
qed

theorem run_terminates_witness:
  "(\<forall>k t. future_done (prompt_env (completed png 404 [])) t k)
   \<and> (\<exists>r. inner_download_images (prompt_env (completed png 404 [])) 5 8 [''out'']
            [''https://example.com/a.png''] = Some r)
   \<and> handle_future (prompt_env (completed png 404 [])) 5 [''out''] 0
        (submit_pending (init_state [''https://example.com/a.png'']))
      = Inr (one_failed\<lparr>printed := []\<rparr>)
   \<and> length (future_to_url (one_failed\<lparr>printed := []\<rparr>))
       < length (future_to_url (submit_pending (init_state [''https://example.com/a.png''])))"
proof -
  let ?E = "prompt_env (completed png 404 [])"
  have dn: "future_done ?E t k" for t k by (simp add: prompt_env_def)
  then have fair: "\<forall>k. \<exists>T. \<forall>t\<ge>T. future_done ?E t k" by simp
  have h: "handle_future ?E 5 [''out''] 0 (submit_pending (init_state [''https://example.com/a.png'']))
      = Inr (one_failed\<lparr>printed := []\<rparr>)"
    by (simp add: init_state_def prompt_env_def completed_def handle_future_def
      download_image_def drop_future_def retryable_def startswith_def str_int_def str_nat.simps
      one_failed_def)
  from run_terminates[OF fair, of 5 8 "[''out'']" "[''https://example.com/a.png'']"] h dn
  show ?thesis by blast
qed

text \<open>
  C10. Claim: in a pair returned by \<^verbatim>\<open>download_image\<close> the error is \<^verbatim>\<open>None\<close> exactly when
  success is true, so the drain loop never calls \<^verbatim>\<open>startswith\<close> on \<^verbatim>\<open>None\<close>: handling a
  future never raises \<^verbatim>\<open>AttributeError\<close>.
\<close>

theorem error_field_present:
  "(\<forall>success err. fst (download_image L url d) = Inr (success, err) \<longrightarrow> (success \<longleftrightarrow> err = None))
   \<and> handle_future env m d f s \<noteq> Inl AttributeError"
proof
  show a: "\<forall>success err. fst (download_image L url d) = Inr (success, err) \<longrightarrow> (success \<longleftrightarrow> err = None)"
    using download_image_shape[of L url d] by auto
  show "handle_future env m d f s \<noteq> Inl AttributeError"
  proof (cases "map_of (future_to_url s) f")
    case None
    then show ?thesis by (simp add: handle_future_def)
  next
    case (Some u)
    from download_image_shape[of "lib env f" u d] Some show ?thesis
      by (auto simp: handle_future_def Let_def split: option.splits if_splits)
  qed
qed

theorem error_field_present_witness:
  "fst (download_image (completed png 404 []) ''https://example.com/a.png'' [''out''])
     = Inr (False, Some ''HTTP 404'')
   \<and> (False \<longleftrightarrow> Some ''HTTP 404'' = (None :: string option))
   \<and> handle_future (prompt_env (completed png 404 [])) 5 [''out''] 0
        (submit_pending (init_state [''https://example.com/a.png''])) \<noteq> Inl AttributeError"
proof -
  have h: "fst (download_image (completed png 404 []) ''https://example.com/a.png'' [''out''])
     = Inr (False, Some ''HTTP 404'')"
    by (simp add: download_image_def completed_def str_int_def str_nat.simps)
  from error_field_present[of "completed png 404 []" "''https://example.com/a.png''" "[''out'']"
      "prompt_env (completed png 404 [])" 5 0 "submit_pending (init_state [''https://example.com/a.png''])"] h
  show ?thesis by simp
qed

end
